theory Spec2Isabelle
  imports Main "HOL-Library.Word"
begin

chapter \<open>The cluster gateway of kobs (pkg/api/clusters/cluster/cluster.go)\<close>

text \<open>
  Go strings and byte slices are sequences of bytes: \<^typ>\<open>string\<close>, a list of 8-bit
  characters. A Go \<open>error\<close> is a value of the datatype \<open>error\<close>; a function that
  returns \<open>(T, error)\<close> returns \<open>error + T\<close>, one that returns only \<open>error\<close> returns
  \<open>error option\<close> (\<open>None\<close> is \<open>nil\<close>). Calls that leave the process (the Kubernetes
  REST client, the clock, the WebSocket connection, the regular-expression compiler) are
  explicit: their answers are parameters or fields of a state that is threaded through,
  and the calls made are recorded in that state. Logging is left out: it changes nothing
  a caller can observe. \<open>int64\<close> values are 64-bit words, read with \<open>sint\<close>.
\<close>

section \<open>Embedding\<close>

subsection \<open>Errors and strings\<close>

text \<open>
  The sentinel errors of the Go library that the code compares against or passes on,
  and any other error with its message.
\<close>

datatype error = io_EOF | io_ErrNoProgress | bufio_ErrBufferFull | Error string

definition LF :: char where
  "LF = CHR 0x0A"

definition CR :: char where
  "CR = CHR 0x0D"

text \<open>\<open>strings.Split(s, sep)\<close> for a separator of one byte: \<open>n\<close> separators give \<open>n + 1\<close> pieces.\<close>

fun strings_Split :: "string \<Rightarrow> char \<Rightarrow> string list" where
  "strings_Split [] sep = [[]]"
| "strings_Split (c # cs) sep =
     (if c = sep then [] # strings_Split cs sep
      else (case strings_Split cs sep of
              [] \<Rightarrow> [[c]]
            | l # ls \<Rightarrow> (c # l) # ls))"

text \<open>\<open>strings.Join(elems, sep)\<close>.\<close>

fun strings_Join :: "string list \<Rightarrow> string \<Rightarrow> string" where
  "strings_Join [] sep = []"
| "strings_Join [a] sep = a"
| "strings_Join (a # b # elems) sep = a @ sep @ strings_Join (b # elems) sep"

subsection \<open>Cluster name (NewCluster, slugifyRe)\<close>

text \<open>
  \<^verbatim>\<open>slugifyRe = regexp.MustCompile("[^a-z0-9]+")\<close>
  \<^verbatim>\<open>name = strings.Trim(slugifyRe.ReplaceAllString(strings.ToLower(name), "-"), "-")\<close>

  The class \<open>[a-z0-9]\<close> holds ASCII bytes only, and every byte of a multi-byte or
  invalid UTF-8 sequence is at least 128, so a maximal run of runes outside the class is
  a maximal run of bytes outside it.
\<close>

definition slugifyRe_class :: "char \<Rightarrow> bool" where
  "slugifyRe_class c =
     (let n = (of_char c :: nat) in (97 \<le> n \<and> n \<le> 122) \<or> (48 \<le> n \<and> n \<le> 57))"

text \<open>
  \<open>ReplaceAllString\<close> for \<open>slugifyRe\<close>: the leftmost match of \<open>[^a-z0-9]+\<close> is greedy,
  so every maximal run of bytes outside the class is replaced by \<open>repl\<close> (the
  replacement of the source, "-", has no \<open>$\<close> expansion).
\<close>

function slugifyRe_ReplaceAllString :: "string \<Rightarrow> string \<Rightarrow> string" where
  "slugifyRe_ReplaceAllString [] repl = []"
| "slugifyRe_ReplaceAllString (c # cs) repl =
     (if slugifyRe_class c then c # slugifyRe_ReplaceAllString cs repl
      else repl @ slugifyRe_ReplaceAllString (dropWhile (\<lambda>x. \<not> slugifyRe_class x) cs) repl)"
  by pat_completeness auto
termination
  by (relation "measure (\<lambda>(s, repl). length s)") (auto simp: le_imp_less_Suc length_dropWhile_le)

definition ascii_lower :: "char \<Rightarrow> char" where
  "ascii_lower c =
     (let n = (of_char c :: nat) in if 65 \<le> n \<and> n \<le> 90 then char_of (n + 32) else c)"

text \<open>
  \<open>strings.ToLower\<close>: a string of ASCII bytes is lowered byte by byte; any other string
  goes through \<open>strings.Map(unicode.ToLower, s)\<close>, which is the parameter
  \<open>unicode_lower\<close> here.
\<close>

definition strings_ToLower :: "(string \<Rightarrow> string) \<Rightarrow> string \<Rightarrow> string" where
  "strings_ToLower unicode_lower s =
     (if list_all (\<lambda>c. (of_char c :: nat) < 128) s then map ascii_lower s
      else unicode_lower s)"

text \<open>\<open>strings.Trim(s, cutset)\<close> for a cutset of one ASCII byte.\<close>

definition strings_Trim :: "string \<Rightarrow> char \<Rightarrow> string" where
  "strings_Trim s c = rev (dropWhile (\<lambda>x. x = c) (rev (dropWhile (\<lambda>x. x = c) s)))"

definition NewCluster_name :: "(string \<Rightarrow> string) \<Rightarrow> string \<Rightarrow> string" where
  "NewCluster_name unicode_lower nm =
     strings_Trim (slugifyRe_ReplaceAllString (strings_ToLower unicode_lower nm) ''-'') (CHR ''-'')"

text \<open>The shape of a replaced string: bytes of the class and single dashes between them.\<close>

fun slug_form :: "string \<Rightarrow> bool" where
  "slug_form [] = True"
| "slug_form [c] = (slugifyRe_class c \<or> c = CHR ''-'')"
| "slug_form (c # d # cs) =
     ((slugifyRe_class c \<or> (c = CHR ''-'' \<and> slugifyRe_class d)) \<and> slug_form (d # cs))"

subsection \<open>The cluster and its custom resource definitions\<close>

record CRDColumn =
  col_Description :: string
  col_JSONPath :: string
  col_Name :: string
  col_Type :: string

record CRD =
  crd_Path :: string
  crd_Resource :: string
  crd_Title :: string
  crd_Description :: string
  crd_Scope :: string
  crd_Columns :: "CRDColumn list"

text \<open>Times are nanoseconds on the integer line; \<open>time.Duration\<close> is an \<open>int64\<close> of nanoseconds.\<close>

record Cache =
  namespaces :: "string list"
  namespacesLastFetch :: int

record Cluster =
  cache :: Cache
  cluster_name :: string
  crds :: "CRD list"

definition GetName :: "Cluster \<Rightarrow> string" where
  "GetName c = cluster_name c"

definition GetCRDs :: "Cluster \<Rightarrow> CRD list" where
  "GetCRDs c = crds c"

text \<open>The zero \<open>time.Time\<close>: 1 January of year 1, in nanoseconds before the Unix epoch.\<close>

definition zero_time :: int where
  "zero_time = - 62135596800 * 1000000000"

text \<open>
  \<open>NewCluster\<close>: \<open>clientset_error\<close> is the first error of the five clientset
  constructors, if one fails. The new cluster has no CRDs and a cache that was never
  fetched; \<open>loadCRDs\<close> is started on it in the background.
\<close>

definition NewCluster :: "(string \<Rightarrow> string) \<Rightarrow> error option \<Rightarrow> string \<Rightarrow> error + Cluster" where
  "NewCluster unicode_lower clientset_error nm =
     (case clientset_error of
        Some err \<Rightarrow> Inl err
      | None \<Rightarrow>
          Inr \<lparr>cache = \<lparr>namespaces = [], namespacesLastFetch = zero_time\<rparr>,
               cluster_name = NewCluster_name unicode_lower nm,
               crds = []\<rparr>)"

subsection \<open>GetNamespaces\<close>

record Namespace =
  ObjectMeta_Name :: string
  Status_Phase :: string

text \<open>
  The cluster's API server and the clock: \<open>namespaces_answer k\<close> is the answer to the
  \<open>k\<close>-th namespace-list call, which takes \<open>namespaces_latency k\<close> nanoseconds;
  \<open>namespaces_calls\<close> counts the calls made.
\<close>

record Kubernetes =
  clock :: int
  namespaces_answer :: "nat \<Rightarrow> error + Namespace list"
  namespaces_latency :: "nat \<Rightarrow> nat"
  namespaces_calls :: nat

definition Namespaces_List :: "Kubernetes \<Rightarrow> (error + Namespace list) \<times> Kubernetes" where
  "Namespaces_List k =
     (namespaces_answer k (namespaces_calls k),
      k\<lparr>clock := clock k + int (namespaces_latency k (namespaces_calls k)),
        namespaces_calls := Suc (namespaces_calls k)\<rparr>)"

definition Time_Add :: "int \<Rightarrow> 64 word \<Rightarrow> int" where
  "Time_Add t d = t + sint d"

definition Time_After :: "int \<Rightarrow> int \<Rightarrow> bool" where
  "Time_After t u = (u < t)"

text \<open>
  \<open>-1 * cacheDuration\<close> is an \<open>int64\<close> product: it wraps at the least duration.
  The result is the value returned, the cluster and the API server afterwards.
\<close>

definition GetNamespaces ::
  "Cluster \<Rightarrow> Kubernetes \<Rightarrow> 64 word \<Rightarrow> (error + string list) \<times> Cluster \<times> Kubernetes" where
  "GetNamespaces c k cacheDuration =
     (if Time_After (namespacesLastFetch (cache c)) (Time_Add (clock k) (- 1 * cacheDuration))
      then (Inr (namespaces (cache c)), c, k)
      else
        (case Namespaces_List k of
           (Inl err, k') \<Rightarrow> (Inl err, c, k')
         | (Inr namespaceList, k') \<Rightarrow>
             (let nss = foldl (\<lambda>acc n. acc @ [ObjectMeta_Name n]) [] namespaceList;
                  c1 = c\<lparr>cache := (cache c)\<lparr>namespaces := nss\<rparr>\<rparr>;
                  c2 = c1\<lparr>cache := (cache c1)\<lparr>namespacesLastFetch := clock k'\<rparr>\<rparr>
              in (Inr nss, c2, k'))))"

text \<open>
  Callers of \<open>GetNamespaces\<close> that run at the same time on one cluster. The function
  takes no lock, so its reads and writes of the cache and its call to the API server are
  steps of their own, and the steps of different callers interleave. A caller is at one
  of the points of the function body: before the expiry test, before the list call,
  before each of the two stores to the cache (holding the list it fetched), or returned.
\<close>

datatype caller =
    Start
  | Calling
  | StoreNamespaces "string list"
  | StoreLastFetch "string list"
  | Returned "error + string list"

record system =
  sys_cluster :: Cluster
  sys_kube :: Kubernetes
  sys_callers :: "caller list"

definition caller_step ::
  "64 word \<Rightarrow> caller \<Rightarrow> Cluster \<Rightarrow> Kubernetes \<Rightarrow> caller \<times> Cluster \<times> Kubernetes" where
  "caller_step cacheDuration pc c k =
     (case pc of
        Start \<Rightarrow>
          (if Time_After (namespacesLastFetch (cache c)) (Time_Add (clock k) (- 1 * cacheDuration))
           then (Returned (Inr (namespaces (cache c))), c, k)
           else (Calling, c, k))
      | Calling \<Rightarrow>
          (case Namespaces_List k of
             (Inl err, k') \<Rightarrow> (Returned (Inl err), c, k')
           | (Inr namespaceList, k') \<Rightarrow>
               (StoreNamespaces (foldl (\<lambda>acc n. acc @ [ObjectMeta_Name n]) [] namespaceList), c, k'))
      | StoreNamespaces nss \<Rightarrow> (StoreLastFetch nss, c\<lparr>cache := (cache c)\<lparr>namespaces := nss\<rparr>\<rparr>, k)
      | StoreLastFetch nss \<Rightarrow>
          (Returned (Inr nss), c\<lparr>cache := (cache c)\<lparr>namespacesLastFetch := clock k\<rparr>\<rparr>, k)
      | Returned r \<Rightarrow> (Returned r, c, k))"

text \<open>Caller \<open>i\<close> takes its next step; a schedule is the order in which callers step.\<close>

definition step :: "64 word \<Rightarrow> system \<Rightarrow> nat \<Rightarrow> system" where
  "step cacheDuration s i =
     (if i < length (sys_callers s) then
        (case caller_step cacheDuration (sys_callers s ! i) (sys_cluster s) (sys_kube s) of
           (pc', c', k') \<Rightarrow> \<lparr>sys_cluster = c', sys_kube = k', sys_callers = (sys_callers s)[i := pc']\<rparr>)
      else s)"

definition run :: "64 word \<Rightarrow> system \<Rightarrow> nat list \<Rightarrow> system" where
  "run cacheDuration s schedule = foldl (step cacheDuration) s schedule"

fun is_Returned :: "caller \<Rightarrow> bool" where
  "is_Returned (Returned r) = True"
| "is_Returned pc = False"

text \<open>The list calls a caller has made, and what the \<open>j\<close>-th call gives its caller.\<close>

fun calls_made :: "caller \<Rightarrow> nat" where
  "calls_made Start = 0"
| "calls_made Calling = 0"
| "calls_made pc = 1"

definition fetched :: "(nat \<Rightarrow> error + Namespace list) \<Rightarrow> nat \<Rightarrow> error + string list" where
  "fetched answers j =
     (case answers j of
        Inl err \<Rightarrow> Inl err
      | Inr namespaceList \<Rightarrow> Inr (map ObjectMeta_Name namespaceList))"

text \<open>
  What holds of a caller that has passed the expiry test, in a system where \<open>m\<close> calls
  have been made since the test: it is about to call, or it holds the answer of one of
  these calls.
\<close>

definition caller_ok :: "nat \<Rightarrow> (nat \<Rightarrow> error + Namespace list) \<Rightarrow> nat \<Rightarrow> caller \<Rightarrow> bool" where
  "caller_ok calls0 answers m pc =
     (pc = Calling \<or>
      (\<exists>j<m. pc = Returned (fetched answers (calls0 + j)) \<or>
         (\<exists>nss. fetched answers (calls0 + j) = Inr nss \<and>
            (pc = StoreNamespaces nss \<or> pc = StoreLastFetch nss))))"

definition past_test :: "nat \<Rightarrow> (nat \<Rightarrow> error + Namespace list) \<Rightarrow> system \<Rightarrow> bool" where
  "past_test calls0 answers s =
     (namespaces_answer (sys_kube s) = answers \<and>
      namespaces_calls (sys_kube s) = calls0 + sum_list (map calls_made (sys_callers s)) \<and>
      list_all (caller_ok calls0 answers (sum_list (map calls_made (sys_callers s)))) (sys_callers s))"

text \<open>
  A caller reads the cache in one step only, its expiry test (\<open>Start\<close>): the test reads
  \<open>namespacesLastFetch\<close> and the return behind it reads \<open>namespaces\<close>. The cache entry
  is torn while some caller has stored its list and not yet its time. A caller observes a
  torn entry when it is about to read the cache while the entry is torn.
\<close>

definition reads_cache :: "system \<Rightarrow> nat \<Rightarrow> bool" where
  "reads_cache s i = (i < length (sys_callers s) \<and> sys_callers s ! i = Start)"

definition torn :: "system \<Rightarrow> bool" where
  "torn s =
     list_ex (\<lambda>pc. case pc of StoreLastFetch nss \<Rightarrow> True | _ \<Rightarrow> False) (sys_callers s)"

definition observes_torn :: "system \<Rightarrow> nat \<Rightarrow> bool" where
  "observes_torn s i = (reads_cache s i \<and> torn s)"

text \<open>
  Two callers with a cache duration of 60 on a cache fetched at time 100, at time 160;
  the first list call finds one namespace, later ones find two.
\<close>

definition two_callers :: system where
  "two_callers =
     \<lparr>sys_cluster =
        \<lparr>cache = \<lparr>namespaces = [''default''], namespacesLastFetch = 100\<rparr>,
         cluster_name = ''c'', crds = []\<rparr>,
      sys_kube =
        \<lparr>clock = 160,
         namespaces_answer =
           (\<lambda>j. if j = 0 then Inr [\<lparr>ObjectMeta_Name = ''default'', Status_Phase = ''Active''\<rparr>]
                 else Inr [\<lparr>ObjectMeta_Name = ''default'', Status_Phase = ''Active''\<rparr>,
                           \<lparr>ObjectMeta_Name = ''team-a'', Status_Phase = ''Active''\<rparr>]),
         namespaces_latency = (\<lambda>j. 7), namespaces_calls = 0\<rparr>,
      sys_callers = [Start, Start]\<rparr>"




subsection \<open>GetResources\<close>

text \<open>
  A request of the REST client as the builder calls leave it: \<open>Namespace\<close> and \<open>Name\<close>
  record that they were called, \<open>Param\<close> adds a query parameter. \<open>DoRaw\<close> sends the
  request: the client answers with \<open>respond\<close> and keeps the requests \<open>sent\<close>.
\<close>

record Request =
  req_verb :: string
  req_absPath :: string
  req_namespace :: "string option"
  req_resource :: string
  req_name :: "string option"
  req_params :: "(string \<times> string) list"

definition Get :: Request where
  "Get = \<lparr>req_verb = ''GET'', req_absPath = [], req_namespace = None, req_resource = [],
          req_name = None, req_params = []\<rparr>"

definition AbsPath :: "string \<Rightarrow> Request \<Rightarrow> Request" where
  "AbsPath p r = r\<lparr>req_absPath := p\<rparr>"

definition Namespace :: "string \<Rightarrow> Request \<Rightarrow> Request" where
  "Namespace ns r = r\<lparr>req_namespace := Some ns\<rparr>"

definition Resource :: "string \<Rightarrow> Request \<Rightarrow> Request" where
  "Resource rs r = r\<lparr>req_resource := rs\<rparr>"

definition Name :: "string \<Rightarrow> Request \<Rightarrow> Request" where
  "Name n r = r\<lparr>req_name := Some n\<rparr>"

definition Param :: "string \<Rightarrow> string \<Rightarrow> Request \<Rightarrow> Request" where
  "Param pn p r = r\<lparr>req_params := req_params r @ [(pn, p)]\<rparr>"

record RESTClient =
  respond :: "Request \<Rightarrow> error + string"
  sent :: "Request list"

definition DoRaw :: "Request \<Rightarrow> RESTClient \<Rightarrow> (error + string) \<times> RESTClient" where
  "DoRaw r cl = (respond cl r, cl\<lparr>sent := sent cl @ [r]\<rparr>)"

definition GetResources ::
  "RESTClient \<Rightarrow> string \<Rightarrow> string \<Rightarrow> string \<Rightarrow> string \<Rightarrow> string \<Rightarrow> string
     \<Rightarrow> (error + string) \<times> RESTClient" where
  "GetResources cl ns nm path rs paramName param =
     (if nm \<noteq> [] then
        (if ns \<noteq> [] then
           (case DoRaw (Name nm (Resource rs (Namespace ns (AbsPath path Get)))) cl of
              (Inl err, cl') \<Rightarrow> (Inl err, cl')
            | (Inr res, cl') \<Rightarrow> (Inr res, cl'))
         else
           (case DoRaw (Name nm (Resource rs (AbsPath path Get))) cl of
              (Inl err, cl') \<Rightarrow> (Inl err, cl')
            | (Inr res, cl') \<Rightarrow> (Inr res, cl')))
      else
        (case DoRaw (Param paramName param (Resource rs (Namespace ns (AbsPath path Get)))) cl of
           (Inl err, cl') \<Rightarrow> (Inl err, cl')
         | (Inr res, cl') \<Rightarrow> (Inr res, cl')))"

subsection \<open>GetLogs\<close>

record PodLogOptions =
  Container :: string
  Follow :: bool
  Previous :: bool
  SinceSeconds :: "64 word option"
  TailLines :: "64 word option"

definition GetLogs_options :: "string \<Rightarrow> 64 word \<Rightarrow> 64 word \<Rightarrow> bool \<Rightarrow> PodLogOptions" where
  "GetLogs_options container since tail previous =
     (let options = \<lparr>Container = container, Follow = False, Previous = previous,
                       SinceSeconds = Some since, TailLines = None\<rparr>
      in if 0 < sint tail then options\<lparr>TailLines := Some tail\<rparr> else options)"

text \<open>
  \<open>podLogs\<close> is the pod-log request (\<open>Pods(namespace).GetLogs(name, options).DoRaw\<close>),
  \<open>regexp_Compile\<close> is \<open>regexp.Compile\<close>, giving the compiled expression's
  \<open>MatchString\<close>. The two loops append to \<open>logs\<close> line by line.
\<close>

definition GetLogs ::
  "(string \<Rightarrow> string \<Rightarrow> PodLogOptions \<Rightarrow> error + string) \<Rightarrow> (string \<Rightarrow> error + (string \<Rightarrow> bool))
     \<Rightarrow> string \<Rightarrow> string \<Rightarrow> string \<Rightarrow> string \<Rightarrow> 64 word \<Rightarrow> 64 word \<Rightarrow> bool \<Rightarrow> error + string" where
  "GetLogs podLogs regexp_Compile ns nm container regex since tail previous =
     (case podLogs ns nm (GetLogs_options container since tail previous) of
        Inl err \<Rightarrow> Inl err
      | Inr res \<Rightarrow>
          if regex = [] then
            Inr (strings_Join (foldl (\<lambda>logs line. logs @ [line]) [] (strings_Split res LF)) [LF, CR]
                 @ [LF, CR])
          else
            (case regexp_Compile regex of
               Inl err \<Rightarrow> Inl err
             | Inr reg \<Rightarrow>
                 Inr (strings_Join
                        (foldl (\<lambda>logs line. if reg line then logs @ [line] else logs) []
                           (strings_Split res LF)) [LF, CR]
                      @ [LF, CR])))"

subsection \<open>StreamLogs\<close>

text \<open>
  The body of the pod-log response is an \<open>io.Reader\<close>: the bytes arrive in \<open>chunks\<close>,
  and after the last one every \<open>Read\<close> returns the error \<open>final\<close> (\<open>io.EOF\<close> when the
  log ends). \<open>Read\<close> into a buffer with room for \<open>k\<close> bytes returns at most \<open>k\<close> bytes of
  the chunk at hand and leaves the rest of it for the next call.
\<close>

record Stream =
  chunks :: "string list"
  final :: error

definition Stream_Read :: "nat \<Rightarrow> Stream \<Rightarrow> (string \<times> error option) \<times> Stream" where
  "Stream_Read k st =
     (case chunks st of
        [] \<Rightarrow> (([], Some (final st)), st)
      | c # cs \<Rightarrow>
          (let n = min k (length c)
           in ((take n c, None), st\<lparr>chunks := (if drop n c = [] then cs else drop n c # cs)\<rparr>)))"

text \<open>
  \<open>bufio.NewReaderSize(stream, 16)\<close>: a reader with a buffer of 16 bytes.
  \<open>window\<close> is the unread part of the buffer, \<open>buf[r:w]\<close>; \<open>rerr\<close> is the pending read
  error. \<open>fill\<close> moves the window to the front of the buffer and reads into the room
  behind it, giving up after 100 reads that bring neither bytes nor an error.
\<close>

record Reader =
  rd :: Stream
  window :: string
  rerr :: "error option"

definition NewReaderSize :: "Stream \<Rightarrow> Reader" where
  "NewReaderSize st = \<lparr>rd = st, window = [], rerr = None\<rparr>"

fun fill_tries :: "nat \<Rightarrow> Reader \<Rightarrow> Reader" where
  "fill_tries 0 b = b\<lparr>rerr := Some io_ErrNoProgress\<rparr>"
| "fill_tries (Suc i) b =
     (case Stream_Read (16 - length (window b)) (rd b) of
        ((data, err), st') \<Rightarrow>
          (let b' = b\<lparr>rd := st', window := window b @ data\<rparr>
           in (case err of
                 Some e \<Rightarrow> b'\<lparr>rerr := Some e\<rparr>
               | None \<Rightarrow> if data \<noteq> [] then b' else fill_tries i b')))"

definition fill :: "Reader \<Rightarrow> Reader" where
  "fill b = fill_tries 100 b"

lemma fill_tries_progress:
  "length (window b) < 16 \<Longrightarrow>
   length (window b) \<le> length (window (fill_tries n b)) \<and>
   (rerr (fill_tries n b) = None \<longrightarrow> length (window b) < length (window (fill_tries n b)))"
proof (induction n arbitrary: b)
  case 0
  then show ?case by simp
next
  case (Suc n)
  show ?case
  proof (cases "chunks (rd b)")
    case Nil
    then show ?thesis by (simp add: Stream_Read_def)
  next
    case (Cons c cs)
    show ?thesis
    proof (cases "c = []")
      case True
      with Cons Suc.prems Suc.IH [of "b\<lparr>rd := (rd b)\<lparr>chunks := cs\<rparr>\<rparr>"] show ?thesis
        by (simp add: Stream_Read_def)
    next
      case False
      with Cons Suc.prems show ?thesis
        by (simp add: Stream_Read_def Let_def)
    qed
  qed
qed

text \<open>
  \<open>ReadSlice(delim)\<close>: the bytes up to and including the first \<open>delim\<close> in the window;
  without one, the window with the pending error, or the full buffer with
  \<open>ErrBufferFull\<close>; otherwise fill and look again. Each round either ends, or sets the
  error, or makes the window longer.
\<close>

function ReadSlice :: "char \<Rightarrow> Reader \<Rightarrow> (string \<times> error option) \<times> Reader" where
  "ReadSlice delim b =
     (if delim \<in> set (window b) then
        (let i = length (takeWhile (\<lambda>c. c \<noteq> delim) (window b))
         in ((take (i + 1) (window b), None), b\<lparr>window := drop (i + 1) (window b)\<rparr>))
      else if rerr b \<noteq> None then ((window b, rerr b), b\<lparr>window := [], rerr := None\<rparr>)
      else if 16 \<le> length (window b) then ((window b, Some bufio_ErrBufferFull), b\<lparr>window := []\<rparr>)
      else ReadSlice delim (fill b))"
  by pat_completeness auto
termination
proof (relation "measure (\<lambda>(delim, b). (if rerr b = None then 1 else 0) + (16 - length (window b)))")
  show "wf (measure (\<lambda>(delim, b). (if rerr b = None then 1 else 0) + (16 - length (window b))))"
    by simp
next
  fix delim :: char and b :: Reader
  assume "\<not> rerr b \<noteq> None" and "\<not> 16 \<le> length (window b)"
  then have small: "length (window b) < 16" and none: "rerr b = None" by simp_all
  from fill_tries_progress [OF small, of 100] none small
  show "((delim, fill b), (delim, b))
        \<in> measure (\<lambda>(delim, b). (if rerr b = None then 1 else 0) + (16 - length (window b)))"
    by (auto simp: fill_def)
qed

declare ReadSlice.simps [simp del]

text \<open>
  \<open>ReadLine\<close>: a line without its end-of-line bytes (\<open>\n\<close> or \<open>\r\n\<close>); \<open>isPrefix\<close>
  when the buffer was full before the line ended. A \<open>\r\<close> at the end of a full buffer is
  put back (\<open>b.r--\<close>), so that a \<open>\r\n\<close> across two reads is still one line end.
\<close>

definition ReadLine :: "Reader \<Rightarrow> (string \<times> bool \<times> error option) \<times> Reader" where
  "ReadLine b =
     (case ReadSlice LF b of
        ((line, err), b') \<Rightarrow>
          if err = Some bufio_ErrBufferFull then
            (if length line > 0 \<and> last line = CR
             then ((butlast line, True, None), b'\<lparr>window := CR # window b'\<rparr>)
             else ((line, True, None), b'))
          else if length line = 0 then (([], False, err), b')
          else if last line = LF then
            (let drop = (if length line > 1 \<and> line ! (length line - 2) = CR then 2 else 1)
             in ((take (length line - drop) line, False, None), b'))
          else ((line, False, None), b'))"

text \<open>
  The WebSocket connection: the text messages \<open>written\<close>, and whether the write of the
  \<open>k\<close>-th message fails.
\<close>

record Conn =
  written :: "string list"
  write_error :: "nat \<Rightarrow> error option"

definition WriteMessage :: "string \<Rightarrow> Conn \<Rightarrow> error option \<times> Conn" where
  "WriteMessage line conn =
     (case write_error conn (length (written conn)) of
        Some e \<Rightarrow> (Some e, conn)
      | None \<Rightarrow> (None, conn\<lparr>written := written conn @ [line]\<rparr>))"

fun write_lines :: "string list \<Rightarrow> Conn \<Rightarrow> error option \<times> Conn" where
  "write_lines [] conn = (None, conn)"
| "write_lines (line # lines) conn =
     (case WriteMessage line conn of
        (Some e, conn') \<Rightarrow> (Some e, conn')
      | (None, conn') \<Rightarrow> write_lines lines conn')"

text \<open>
  The body of the loop between \<open>ReadLine\<close> and the writes: the lines to write now and
  the new \<open>lastLine\<close>.
\<close>

definition reassemble :: "string \<Rightarrow> bool \<Rightarrow> string \<Rightarrow> string list \<times> string" where
  "reassemble data isPrefix lastLine =
     (let lines = strings_Split data CR;
          len = length lines;
          lines1 = (if length lastLine > 0 then lines[0 := lastLine @ lines ! 0] else lines);
          lastLine1 = (if length lastLine > 0 then [] else lastLine)
      in if isPrefix then (take (len - 1) lines1, lines1 ! (len - 1)) else (lines1, lastLine1))"

text \<open>
  The loop of \<open>StreamLogs\<close> runs until \<open>ReadLine\<close> or a write returns an error; the
  result is that error and the connection. \<open>None\<close> is a loop that never returns.
\<close>

partial_function (option) StreamLogs_loop :: "Reader \<Rightarrow> string \<Rightarrow> Conn \<Rightarrow> (error \<times> Conn) option" where
  "StreamLogs_loop reader lastLine conn =
     (case ReadLine reader of
        ((data, isPrefix, Some err), reader') \<Rightarrow> Some (err, conn)
      | ((data, isPrefix, None), reader') \<Rightarrow>
          (case write_lines (fst (reassemble data isPrefix lastLine)) conn of
             (Some err, conn') \<Rightarrow> Some (err, conn')
           | (None, conn') \<Rightarrow> StreamLogs_loop reader' (snd (reassemble data isPrefix lastLine)) conn'))"

declare StreamLogs_loop.simps [code]

definition StreamLogs_options :: "string \<Rightarrow> 64 word \<Rightarrow> 64 word \<Rightarrow> bool \<Rightarrow> PodLogOptions" where
  "StreamLogs_options container since tail follow =
     (let options = \<lparr>Container = container, Follow = follow, Previous = False,
                       SinceSeconds = Some since, TailLines = None\<rparr>
      in if 0 < sint tail then options\<lparr>TailLines := Some tail\<rparr> else options)"

text \<open>
  \<open>podLogsStream\<close> opens the stream (\<open>Pods(namespace).GetLogs(name, options).Stream(ctx)\<close>).
  The stream is closed when \<open>StreamLogs\<close> returns (\<open>defer stream.Close()\<close>).
\<close>

definition StreamLogs ::
  "(string \<Rightarrow> string \<Rightarrow> PodLogOptions \<Rightarrow> error + Stream) \<Rightarrow> Conn \<Rightarrow> string \<Rightarrow> string \<Rightarrow> string
     \<Rightarrow> 64 word \<Rightarrow> 64 word \<Rightarrow> bool \<Rightarrow> (error \<times> Conn) option" where
  "StreamLogs podLogsStream conn ns nm container since tail follow =
     (case podLogsStream ns nm (StreamLogs_options container since tail follow) of
        Inl err \<Rightarrow> Some (err, conn)
      | Inr stream \<Rightarrow> StreamLogs_loop (NewReaderSize stream) [] conn)"

text \<open>
  The messages \<open>StreamLogs\<close> writes for a log that arrives in the given chunks and then
  ends, on a connection that takes every message; with the error it returns.
\<close>

definition streamed :: "string list \<Rightarrow> (error \<times> string list) option" where
  "streamed cs =
     map_option (\<lambda>(err, conn). (err, written conn))
       (StreamLogs (\<lambda>ns nm options. Inr \<lparr>chunks = cs, final = io_EOF\<rparr>)
          \<lparr>written = [], write_error = (\<lambda>k. None)\<rparr> ''ns'' ''pod'' ''c'' 0 0 True)"

text \<open>
  The logical lines of a whole log, in the spec's words: the sequence is split at its
  line terminators, a newline, a carriage return, or the two together; what follows the
  last terminator, if anything, is the last line.
\<close>

fun logical_lines :: "string \<Rightarrow> string \<Rightarrow> string list" where
  "logical_lines line [] = (if line = [] then [] else [line])"
| "logical_lines line [c] = (if c = LF \<or> c = CR then [line] else [line @ [c]])"
| "logical_lines line (c # d # cs) =
     (if c = CR \<and> d = LF then line # logical_lines [] cs
      else if c = LF \<or> c = CR then line # logical_lines [] (d # cs)
      else logical_lines (line @ [c]) (d # cs))"

subsection \<open>StreamLogs on the bytes still to deliver\<close>

text \<open>
  What a reader has still to deliver: its window and the chunks not yet read. A reader
  between two calls is \<open>reading\<close>: the window fits the buffer, no chunk is empty, and an
  error is pending only at the end of the stream, behind a window with no newline.
\<close>

definition remaining :: "Reader \<Rightarrow> string" where
  "remaining b = window b @ concat (chunks (rd b))"

definition reading :: "Reader \<Rightarrow> bool" where
  "reading b = (length (window b) \<le> 16 \<and> [] \<notin> set (chunks (rd b)) \<and>
     (rerr b = None \<or>
      (rerr b = Some (final (rd b)) \<and> chunks (rd b) = [] \<and> LF \<notin> set (window b) \<and>
       length (window b) < 16)))"

text \<open>\<open>ReadSlice\<close> and \<open>ReadLine\<close> as functions of the bytes still to deliver.\<close>

definition slice_line :: "string \<Rightarrow> string" where
  "slice_line R = (if LF \<in> set (take 16 R) then takeWhile (\<lambda>c. c \<noteq> LF) R @ [LF] else take 16 R)"

definition slice_err :: "error \<Rightarrow> string \<Rightarrow> error option" where
  "slice_err fin R =
     (if LF \<in> set (take 16 R) then None
      else if 16 \<le> length R then Some bufio_ErrBufferFull else Some fin)"

definition next_line :: "error \<Rightarrow> string \<Rightarrow> (string \<times> bool \<times> error option) \<times> string" where
  "next_line fin R =
     (if LF \<in> set (take 16 R) then
        (let body = takeWhile (\<lambda>c. c \<noteq> LF) R
         in ((if body \<noteq> [] \<and> last body = CR then butlast body else body, False, None),
             drop (length body + 1) R))
      else if 16 \<le> length R then
        (if last (take 16 R) = CR then ((take 15 R, True, None), drop 15 R)
         else ((take 16 R, True, None), drop 16 R))
      else if R = [] then (([], False, Some fin), [])
      else ((R, False, None), []))"

text \<open>The pieces of a read with \<open>lastLine\<close> put before the first.\<close>

definition prep :: "string \<Rightarrow> string list \<Rightarrow> string list" where
  "prep L ps = (L @ hd ps) # tl ps"

subsection \<open>GetTerminal\<close>

text \<open>
  Modelled from the spec: \<open>terminal.IsValidShell\<close> and its list of shells are not among
  the source files. The spec has the shell checked against a fixed allow-list, for example
  \<open>sh\<close> and \<open>bash\<close>, and accepts exactly the listed shells.
\<close>

definition validShells :: "string list" where
  "validShells = [''sh'', ''bash'']"

definition IsValidShell :: "string \<Rightarrow> bool" where
  "IsValidShell shell = List.member validShells shell"

definition GetTerminal_reqURL :: "string \<Rightarrow> string \<Rightarrow> string \<Rightarrow> string \<Rightarrow> string \<Rightarrow> string" where
  "GetTerminal_reqURL host ns nm container shell =
     host @ ''/api/v1/namespaces/'' @ ns @ ''/pods/'' @ nm @ ''/exec?container='' @ container
       @ ''&command='' @ shell @ ''&stdin=true&stdout=true&stderr=true&tty=true''"

text \<open>
  \<open>url_Parse\<close> is \<open>url.Parse\<close>; \<open>StartProcess\<close> is \<open>terminal.StartProcess\<close>, which
  opens the exec session with the cluster for the URL and the command and runs it to its
  end. The result is the error returned and the exec sessions opened.
\<close>

definition GetTerminal ::
  "(string \<Rightarrow> error + 'u) \<Rightarrow> ('u \<Rightarrow> string list \<Rightarrow> error option) \<Rightarrow> string
     \<Rightarrow> string \<Rightarrow> string \<Rightarrow> string \<Rightarrow> string \<Rightarrow> error option \<times> ('u \<times> string list) list" where
  "GetTerminal url_Parse StartProcess host ns nm container shell =
     (case url_Parse (GetTerminal_reqURL host ns nm container shell) of
        Inl err \<Rightarrow> (Some err, [])
      | Inr reqURL \<Rightarrow>
          if \<not> IsValidShell shell then (Some (Error (''invalid shell '' @ shell)), [])
          else (let cmd = [shell] in (StartProcess reqURL cmd, [(reqURL, cmd)])))"

subsection \<open>loadCRDs\<close>

text \<open>The fields of the Kubernetes types that \<open>loadCRDs\<close> reads, and some it does not.\<close>

record CustomResourceColumnDefinition =
  pc_Name :: string
  pc_Type :: string
  pc_Format :: string
  pc_Description :: string
  pc_Priority :: "32 word"
  pc_JSONPath :: string

record JSONSchemaProps =
  schema_Description :: string

record CustomResourceValidation =
  OpenAPIV3Schema :: "JSONSchemaProps option"

record CustomResourceDefinitionVersion =
  ver_Name :: string
  ver_Served :: bool
  ver_Storage :: bool
  ver_Schema :: "CustomResourceValidation option"
  ver_AdditionalPrinterColumns :: "CustomResourceColumnDefinition list"

record CustomResourceDefinition =
  Spec_Group :: string
  Spec_Names_Plural :: string
  Spec_Names_Kind :: string
  Spec_Scope :: string
  Spec_Versions :: "CustomResourceDefinitionVersion list"

definition version_description :: "CustomResourceDefinitionVersion \<Rightarrow> string" where
  "version_description version =
     (case ver_Schema version of
        None \<Rightarrow> []
      | Some schema \<Rightarrow>
          (case OpenAPIV3Schema schema of None \<Rightarrow> [] | Some props \<Rightarrow> schema_Description props))"

definition version_columns :: "CustomResourceDefinitionVersion \<Rightarrow> CRDColumn list" where
  "version_columns version =
     foldl (\<lambda>columns column.
              columns @ [\<lparr>col_Description = pc_Description column, col_JSONPath = pc_JSONPath column,
                           col_Name = pc_Name column, col_Type = pc_Type column\<rparr>])
       [] (ver_AdditionalPrinterColumns version)"

text \<open>The inner loop, over the versions of one definition, and the outer one.\<close>

definition append_versions :: "CRD list \<Rightarrow> CustomResourceDefinition \<Rightarrow> CRD list" where
  "append_versions acc crd =
     foldl (\<lambda>acc version.
              acc @ [\<lparr>crd_Path = Spec_Group crd @ ''/'' @ ver_Name version,
                       crd_Resource = Spec_Names_Plural crd,
                       crd_Title = Spec_Names_Kind crd,
                       crd_Description = version_description version,
                       crd_Scope = Spec_Scope crd,
                       crd_Columns = version_columns version\<rparr>])
       acc (Spec_Versions crd)"

definition append_crds :: "Cluster \<Rightarrow> CustomResourceDefinition list \<Rightarrow> Cluster" where
  "append_crds c items = c\<lparr>crds := foldl append_versions (crds c) items\<rparr>"

text \<open>
  The state of the loop: the cluster, \<open>offset\<close> (a Go \<open>int\<close>, 64 bits), the attempts
  made, and the durations slept so far, \<open>time.Duration(offset) * time.Second\<close> each.
  \<open>DoRawCRDs k\<close> is the answer to the \<open>k\<close>-th request for the definitions, \<open>unmarshal\<close>
  is \<open>json.Unmarshal\<close> into the list of definitions.
\<close>

record crd_task =
  task_cluster :: Cluster
  task_offset :: "64 word"
  task_attempts :: nat
  task_slept :: "64 word list"

datatype 'a progress = Retry 'a | Done 'a

definition Second :: "64 word" where
  "Second = 1000000000"

definition loadCRDs_attempt ::
  "(nat \<Rightarrow> error + string) \<Rightarrow> (string \<Rightarrow> error + CustomResourceDefinition list)
     \<Rightarrow> crd_task \<Rightarrow> crd_task progress" where
  "loadCRDs_attempt DoRawCRDs unmarshal t =
     (case DoRawCRDs (task_attempts t) of
        Inl err \<Rightarrow>
          Retry (t\<lparr>task_slept := task_slept t @ [task_offset t * Second],
                   task_offset := task_offset t * 2,
                   task_attempts := Suc (task_attempts t)\<rparr>)
      | Inr res \<Rightarrow>
          (case unmarshal res of
             Inl err \<Rightarrow>
               Retry (t\<lparr>task_slept := task_slept t @ [task_offset t * Second],
                        task_offset := task_offset t * 2,
                        task_attempts := Suc (task_attempts t)\<rparr>)
           | Inr crdList \<Rightarrow>
               Done (t\<lparr>task_cluster := append_crds (task_cluster t) crdList,
                        task_attempts := Suc (task_attempts t)\<rparr>)))"

text \<open>The endless loop: \<open>None\<close> is a loop that never ends.\<close>

partial_function (option) loadCRDs_loop ::
  "(nat \<Rightarrow> error + string) \<Rightarrow> (string \<Rightarrow> error + CustomResourceDefinition list)
     \<Rightarrow> crd_task \<Rightarrow> crd_task option" where
  "loadCRDs_loop DoRawCRDs unmarshal t =
     (case loadCRDs_attempt DoRawCRDs unmarshal t of
        Retry t' \<Rightarrow> loadCRDs_loop DoRawCRDs unmarshal t'
      | Done t' \<Rightarrow> Some t')"

definition loadCRDs ::
  "(nat \<Rightarrow> error + string) \<Rightarrow> (string \<Rightarrow> error + CustomResourceDefinition list)
     \<Rightarrow> Cluster \<Rightarrow> crd_task option" where
  "loadCRDs DoRawCRDs unmarshal c =
     loadCRDs_loop DoRawCRDs unmarshal
       \<lparr>task_cluster = c, task_offset = 30, task_attempts = 0, task_slept = []\<rparr>"

text \<open>The loop after at most \<open>n\<close> attempts: still retrying, or done.\<close>

fun loadCRDs_after ::
  "(nat \<Rightarrow> error + string) \<Rightarrow> (string \<Rightarrow> error + CustomResourceDefinition list)
     \<Rightarrow> nat \<Rightarrow> crd_task \<Rightarrow> crd_task progress" where
  "loadCRDs_after DoRawCRDs unmarshal 0 t = Retry t"
| "loadCRDs_after DoRawCRDs unmarshal (Suc n) t =
     (case loadCRDs_attempt DoRawCRDs unmarshal t of
        Retry t' \<Rightarrow> loadCRDs_after DoRawCRDs unmarshal n t'
      | Done t' \<Rightarrow> Done t')"

text \<open>Attempt \<open>i\<close> fails when the request or the decoding of its answer fails.\<close>

definition attempt_fails ::
  "(nat \<Rightarrow> error + string) \<Rightarrow> (string \<Rightarrow> error + CustomResourceDefinition list) \<Rightarrow> nat \<Rightarrow> bool" where
  "attempt_fails DoRawCRDs unmarshal i =
     (case DoRawCRDs i of
        Inl err \<Rightarrow> True
      | Inr res \<Rightarrow> (case unmarshal res of Inl err \<Rightarrow> True | Inr crdList \<Rightarrow> False))"

text \<open>The entry the spec describes for one version of one definition.\<close>

definition crd_entry :: "CustomResourceDefinition \<Rightarrow> CustomResourceDefinitionVersion \<Rightarrow> CRD" where
  "crd_entry crd version =
     \<lparr>crd_Path = Spec_Group crd @ ''/'' @ ver_Name version,
      crd_Resource = Spec_Names_Plural crd,
      crd_Title = Spec_Names_Kind crd,
      crd_Description =
        (case ver_Schema version of
           None \<Rightarrow> []
         | Some schema \<Rightarrow>
             (case OpenAPIV3Schema schema of None \<Rightarrow> [] | Some props \<Rightarrow> schema_Description props)),
      crd_Scope = Spec_Scope crd,
      crd_Columns =
        map (\<lambda>column. \<lparr>col_Description = pc_Description column, col_JSONPath = pc_JSONPath column,
                         col_Name = pc_Name column, col_Type = pc_Type column\<rparr>)
          (ver_AdditionalPrinterColumns version)\<rparr>"

text \<open>
  A discovery that fails twice (the request, then the decoding) and then finds two
  definitions, with two versions and with one; and one that fails for ever.
\<close>

definition two_definitions :: "CustomResourceDefinition list" where
  "two_definitions =
     [\<lparr>Spec_Group = ''kobs.io'', Spec_Names_Plural = ''teams'', Spec_Names_Kind = ''Team'',
       Spec_Scope = ''Namespaced'',
       Spec_Versions =
         [\<lparr>ver_Name = ''v1beta1'', ver_Served = True, ver_Storage = True,
           ver_Schema = Some \<lparr>OpenAPIV3Schema = Some \<lparr>schema_Description = ''Team is the Team CRD.''\<rparr>\<rparr>,
           ver_AdditionalPrinterColumns =
             [\<lparr>pc_Name = ''Age'', pc_Type = ''date'', pc_Format = [], pc_Description = [],
               pc_Priority = 0, pc_JSONPath = ''.metadata.creationTimestamp''\<rparr>]\<rparr>,
          \<lparr>ver_Name = ''v1alpha1'', ver_Served = False, ver_Storage = False,
           ver_Schema = None, ver_AdditionalPrinterColumns = []\<rparr>]\<rparr>,
      \<lparr>Spec_Group = ''monitoring.coreos.com'', Spec_Names_Plural = ''servicemonitors'',
       Spec_Names_Kind = ''ServiceMonitor'', Spec_Scope = ''Namespaced'',
       Spec_Versions =
         [\<lparr>ver_Name = ''v1'', ver_Served = True, ver_Storage = True,
           ver_Schema = Some \<lparr>OpenAPIV3Schema = None\<rparr>, ver_AdditionalPrinterColumns = []\<rparr>]\<rparr>]"

definition third_time_lucky :: "nat \<Rightarrow> error + string" where
  "third_time_lucky k =
     (if k = 0 then Inl (Error ''connection refused'')
      else if k = 1 then Inr ''<html>'' else Inr ''{}'')"

definition decode_two :: "string \<Rightarrow> error + CustomResourceDefinition list" where
  "decode_two res = (if res = ''{}'' then Inr two_definitions else Inl (Error ''invalid character''))"

definition empty_cluster :: Cluster where
  "empty_cluster =
     \<lparr>cache = \<lparr>namespaces = [], namespacesLastFetch = zero_time\<rparr>, cluster_name = ''c'', crds = []\<rparr>"

section \<open>Properties\<close>

subsection \<open>Cluster name\<close>

lemma dash_outside_class: "\<not> slugifyRe_class (CHR ''-'')"
  by (simp add: slugifyRe_class_def)

lemma slug_form_cons_class: "slugifyRe_class c \<Longrightarrow> slug_form xs \<Longrightarrow> slug_form (c # xs)"
  by (cases xs) simp_all

lemma slug_form_cons_dash:
  "slug_form xs \<Longrightarrow> xs = [] \<or> slugifyRe_class (hd xs) \<Longrightarrow> slug_form (CHR ''-'' # xs)"
  by (cases xs) auto

lemma slug_form_tl: "slug_form (x # xs) \<Longrightarrow> slug_form xs"
  by (cases xs) simp_all

lemma slug_form_chars: "slug_form xs \<Longrightarrow> c \<in> set xs \<Longrightarrow> slugifyRe_class c \<or> c = CHR ''-''"
  by (induction xs rule: slug_form.induct) auto

lemma slug_form_prefix: "slug_form (xs @ ys) \<Longrightarrow> slug_form xs"
proof (induction xs rule: slug_form.induct)
  case 1
  then show ?case by simp
next
  case (2 c)
  then show ?case by (cases ys) auto
next
  case (3 c d cs)
  then show ?case by auto
qed

lemma slug_form_dropWhile: "slug_form xs \<Longrightarrow> slug_form (dropWhile P xs)"
  by (induction xs) (auto dest: slug_form_tl)

lemma ReplaceAllString_after_run:
  "slugifyRe_ReplaceAllString (dropWhile (\<lambda>x. \<not> slugifyRe_class x) cs) repl = [] \<or>
   slugifyRe_class (hd (slugifyRe_ReplaceAllString (dropWhile (\<lambda>x. \<not> slugifyRe_class x) cs) repl))"
proof (cases "dropWhile (\<lambda>x. \<not> slugifyRe_class x) cs")
  case Nil
  then have "slugifyRe_ReplaceAllString (dropWhile (\<lambda>x. \<not> slugifyRe_class x) cs) repl = []"
    by (simp only: slugifyRe_ReplaceAllString.simps)
  then show ?thesis by (rule disjI1)
next
  case (Cons d ds)
  then have "slugifyRe_class d"
    using hd_dropWhile [of "\<lambda>x. \<not> slugifyRe_class x" cs] by simp
  with Cons show ?thesis by simp
qed

lemma slug_form_ReplaceAllString: "slug_form (slugifyRe_ReplaceAllString s ''-'')"
proof (induction s "''-''" rule: slugifyRe_ReplaceAllString.induct)
  case 1
  then show ?case by simp
next
  case (2 c cs)
  show ?case
  proof (cases "slugifyRe_class c")
    case True
    with 2 show ?thesis by (simp add: slug_form_cons_class)
  next
    case False
    with 2 have
      "slug_form (slugifyRe_ReplaceAllString (dropWhile (\<lambda>x. \<not> slugifyRe_class x) cs) ''-'')"
      by simp
    then have
      "slug_form (CHR ''-'' # slugifyRe_ReplaceAllString (dropWhile (\<lambda>x. \<not> slugifyRe_class x) cs) ''-'')"
      using ReplaceAllString_after_run [of cs "''-''"] by (rule slug_form_cons_dash)
    with False show ?thesis by simp
  qed
qed

lemma ReplaceAllString_fixed: "slug_form r \<Longrightarrow> slugifyRe_ReplaceAllString r ''-'' = r"
  by (induction r rule: slug_form.induct) (auto simp: dash_outside_class)

lemma slug_char_lower:
  "slugifyRe_class c \<or> c = CHR ''-'' \<Longrightarrow> (of_char c :: nat) < 128 \<and> ascii_lower c = c"
  by (auto simp: slugifyRe_class_def ascii_lower_def Let_def)

lemma ToLower_fixed: "slug_form r \<Longrightarrow> strings_ToLower ul r = r"
proof -
  assume sf: "slug_form r"
  have a: "\<And>c. c \<in> set r \<Longrightarrow> (of_char c :: nat) < 128 \<and> ascii_lower c = c"
    using slug_form_chars [OF sf] slug_char_lower by blast
  have "list_all (\<lambda>c. (of_char c :: nat) < 128) r" using a by (simp add: list_all_iff)
  moreover have "map ascii_lower r = r" using a by (simp add: map_idI)
  ultimately show ?thesis by (simp add: strings_ToLower_def)
qed

lemma dropWhile_snoc_keep: "\<not> P x \<Longrightarrow> \<exists>zs. dropWhile P (ys @ [x]) = zs @ [x]"
  by (simp add: dropWhile_append)

lemma dropWhile_rev_keep:
  "t = [] \<or> \<not> P (hd t) \<Longrightarrow>
   dropWhile P (rev (dropWhile P (rev t))) = rev (dropWhile P (rev t))"
proof (cases t)
  case Nil
  then show ?thesis by simp
next
  case (Cons x ys)
  assume "t = [] \<or> \<not> P (hd t)"
  with Cons have nx: "\<not> P x" by simp
  obtain zs where "dropWhile P (rev ys @ [x]) = zs @ [x]"
    using nx dropWhile_snoc_keep [of P x "rev ys"] by blast
  with Cons nx show ?thesis by simp
qed

lemma dropWhile_rev_trimmed:
  "dropWhile P (rev (dropWhile P (rev (dropWhile P s)))) = rev (dropWhile P (rev (dropWhile P s)))"
proof (rule dropWhile_rev_keep)
  show "dropWhile P s = [] \<or> \<not> P (hd (dropWhile P s))"
    using hd_dropWhile [of P s] by blast
qed

lemma Trim_idem: "strings_Trim (strings_Trim s c) c = strings_Trim s c"
  by (simp add: strings_Trim_def dropWhile_rev_trimmed dropWhile_idem)

lemma slug_form_Trim: "slug_form s \<Longrightarrow> slug_form (strings_Trim s c)"
proof -
  assume "slug_form s"
  then have t: "slug_form (dropWhile (\<lambda>x. x = c) s)" by (rule slug_form_dropWhile)
  let ?t = "dropWhile (\<lambda>x. x = c) s"
  have "rev (dropWhile (\<lambda>x. x = c) (rev ?t)) @ rev (takeWhile (\<lambda>x. x = c) (rev ?t)) = ?t"
    by (simp flip: rev_append)
  with t have "slug_form (rev (dropWhile (\<lambda>x. x = c) (rev ?t)))"
    using slug_form_prefix
      [of "rev (dropWhile (\<lambda>x. x = c) (rev ?t))" "rev (takeWhile (\<lambda>x. x = c) (rev ?t))"]
    by simp
  then show ?thesis by (simp add: strings_Trim_def)
qed

text \<open>
  C5: the normalisation of a cluster name (lower-case, every maximal run of bytes outside
  \<open>[a-z0-9]\<close> replaced by one dash, leading and trailing dashes trimmed) is idempotent:
  normalising a normalised name changes nothing, whatever \<open>unicode.ToLower\<close> does on
  strings that are not ASCII.
\<close>

theorem NewCluster_name_idempotent:
  "NewCluster_name ul (NewCluster_name ul s) = NewCluster_name ul s"
proof -
  let ?r = "NewCluster_name ul s"
  have sf: "slug_form ?r"
    unfolding NewCluster_name_def by (rule slug_form_Trim) (rule slug_form_ReplaceAllString)
  have "NewCluster_name ul ?r = strings_Trim ?r (CHR ''-'')"
    by (simp add: NewCluster_name_def [of ul ?r] ToLower_fixed [OF sf] ReplaceAllString_fixed [OF sf])
  also have "\<dots> = ?r" by (simp add: NewCluster_name_def Trim_idem)
  finally show ?thesis .
qed

subsection \<open>GetNamespaces\<close>

lemma foldl_names: "foldl (\<lambda>acc n. acc @ [f n]) acc ns = acc @ map f ns"
  by (induction ns arbitrary: acc) simp_all






text \<open>
  C10: when the list call inside \<open>GetNamespaces\<close> fails, the call returns that error and
  the cluster, with both cache fields, is as it was before the call. (The call is made
  when the expiry test of the code fails; whatever the test says, a failing answer leaves
  the cluster unchanged.)
\<close>

theorem GetNamespaces_error:
  "namespaces_answer k (namespaces_calls k) = Inl err \<Longrightarrow>
   fst (snd (GetNamespaces c k ttl)) = c \<and>
   (\<not> Time_After (namespacesLastFetch (cache c)) (Time_Add (clock k) (- 1 * ttl)) \<longrightarrow>
      GetNamespaces c k ttl =
        (Inl err, c,
         k\<lparr>clock := clock k + int (namespaces_latency k (namespaces_calls k)),
           namespaces_calls := Suc (namespaces_calls k)\<rparr>))"
  by (simp add: GetNamespaces_def Namespaces_List_def del: mult_minus1)

theorem GetNamespaces_error_witness:
  "GetNamespaces
     \<lparr>cache = \<lparr>namespaces = [''default''], namespacesLastFetch = 100\<rparr>, cluster_name = ''c'', crds = []\<rparr>
     \<lparr>clock = 160, namespaces_answer = (\<lambda>j. Inl (Error ''connection refused'')),
      namespaces_latency = (\<lambda>j. 7), namespaces_calls = 0\<rparr> 60 =
   (Inl (Error ''connection refused''),
    \<lparr>cache = \<lparr>namespaces = [''default''], namespacesLastFetch = 100\<rparr>, cluster_name = ''c'', crds = []\<rparr>,
    \<lparr>clock = 167, namespaces_answer = (\<lambda>j. Inl (Error ''connection refused'')),
      namespaces_latency = (\<lambda>j. 7), namespaces_calls = 1\<rparr>)"
  using
    GetNamespaces_error [of
      "\<lparr>clock = 160, namespaces_answer = (\<lambda>j. Inl (Error ''connection refused'')),
        namespaces_latency = (\<lambda>j. 7), namespaces_calls = 0\<rparr>"
      "Error ''connection refused''"
      "\<lparr>cache = \<lparr>namespaces = [''default''], namespacesLastFetch = 100\<rparr>, cluster_name = ''c'', crds = []\<rparr>"
      60]
  by (simp add: Time_After_def Time_Add_def)

subsection \<open>Concurrent callers of GetNamespaces\<close>

text \<open>One caller that takes its four steps alone does what \<open>GetNamespaces\<close> does.\<close>

lemma single_caller_is_GetNamespaces:
  "run ttl \<lparr>sys_cluster = c, sys_kube = k, sys_callers = [Start]\<rparr> [0, 0, 0, 0] =
     (case GetNamespaces c k ttl of
        (r, c', k') \<Rightarrow> \<lparr>sys_cluster = c', sys_kube = k', sys_callers = [Returned r]\<rparr>)"
proof (cases "Time_After (namespacesLastFetch (cache c)) (Time_Add (clock k) (- 1 * ttl))")
  case True
  then show ?thesis
    by (simp add: run_def step_def caller_step_def GetNamespaces_def del: mult_minus1)
next
  case False
  show ?thesis
  proof (cases "namespaces_answer k (namespaces_calls k)")
    case (Inl err)
    with False show ?thesis
      by (simp add: run_def step_def caller_step_def GetNamespaces_def Namespaces_List_def
          del: mult_minus1)
  next
    case (Inr items)
    with False show ?thesis
      by (simp add: run_def step_def caller_step_def GetNamespaces_def Namespaces_List_def Let_def
          del: mult_minus1)
  qed
qed

lemma caller_ok_mono:
  assumes "caller_ok calls0 answers m pc" and "m \<le> m'"
  shows "caller_ok calls0 answers m' pc"
proof (cases "pc = Calling")
  case True
  then show ?thesis by (simp add: caller_ok_def)
next
  case False
  with assms(1) obtain j where j: "j < m"
    and held: "pc = Returned (fetched answers (calls0 + j)) \<or>
         (\<exists>nss. fetched answers (calls0 + j) = Inr nss \<and>
            (pc = StoreNamespaces nss \<or> pc = StoreLastFetch nss))"
    unfolding caller_ok_def by blast
  from j assms(2) have "j < m'" by simp
  with held show ?thesis unfolding caller_ok_def by blast
qed

lemma sum_made_update:
  "i < length xs \<Longrightarrow>
   sum_list (map calls_made (xs[i := pc'])) + calls_made (xs ! i) =
     sum_list (map calls_made xs) + calls_made pc'"
proof (induction xs arbitrary: i)
  case Nil
  then show ?case by simp
next
  case (Cons x xs)
  then show ?case by (cases i) auto
qed

lemma caller_step_ok:
  assumes ok: "caller_ok calls0 answers m pc"
    and ans: "namespaces_answer k = answers"
    and calls: "namespaces_calls k = calls0 + m"
    and st: "caller_step ttl pc c k = (pc', c', k')"
  shows "namespaces_answer k' = answers \<and>
         calls_made pc \<le> calls_made pc' \<and>
         namespaces_calls k' = calls0 + (m + (calls_made pc' - calls_made pc)) \<and>
         caller_ok calls0 answers (m + (calls_made pc' - calls_made pc)) pc'"
proof (cases pc)
  case Start
  with ok show ?thesis by (simp add: caller_ok_def)
next
  case Calling
  show ?thesis
  proof (cases "answers (calls0 + m)")
    case (Inl err)
    with Calling st ans calls have "pc' = Returned (Inl err)" "k' = k\<lparr>clock := clock k + int (namespaces_latency k (namespaces_calls k)), namespaces_calls := Suc (namespaces_calls k)\<rparr>"
      by (auto simp: caller_step_def Namespaces_List_def)
    moreover have "fetched answers (calls0 + m) = Inl err" using Inl by (simp add: fetched_def)
    ultimately show ?thesis using Calling ans calls
      by (auto simp: caller_ok_def)
  next
    case (Inr items)
    with Calling st ans calls have "pc' = StoreNamespaces (map ObjectMeta_Name items)" "k' = k\<lparr>clock := clock k + int (namespaces_latency k (namespaces_calls k)), namespaces_calls := Suc (namespaces_calls k)\<rparr>"
      by (auto simp: caller_step_def Namespaces_List_def foldl_names)
    moreover have "fetched answers (calls0 + m) = Inr (map ObjectMeta_Name items)"
      using Inr by (simp add: fetched_def)
    ultimately show ?thesis using Calling ans calls
      by (auto simp: caller_ok_def)
  qed
next
  case (StoreNamespaces nss)
  with st have "pc' = StoreLastFetch nss" "k' = k" by (auto simp: caller_step_def)
  with ok StoreNamespaces ans calls show ?thesis by (auto simp: caller_ok_def)
next
  case (StoreLastFetch nss)
  with st have "pc' = Returned (Inr nss)" "k' = k" by (auto simp: caller_step_def)
  with ok StoreLastFetch ans calls show ?thesis by (auto simp: caller_ok_def)
next
  case (Returned r)
  with st have "pc' = Returned r" "k' = k" by (auto simp: caller_step_def)
  with ok Returned ans calls show ?thesis by (auto simp: caller_ok_def)
qed

lemma step_past_test: "past_test calls0 answers s \<Longrightarrow> past_test calls0 answers (step ttl s i)"
proof (cases "i < length (sys_callers s)")
  case False
  assume "past_test calls0 answers s"
  with False show ?thesis by (simp add: step_def)
next
  case True
  assume inv: "past_test calls0 answers s"
  let ?m = "sum_list (map calls_made (sys_callers s))"
  let ?pc = "sys_callers s ! i"
  obtain pc' c' k' where st: "caller_step ttl ?pc (sys_cluster s) (sys_kube s) = (pc', c', k')"
    by (cases "caller_step ttl ?pc (sys_cluster s) (sys_kube s)") auto
  have all: "list_all (caller_ok calls0 answers ?m) (sys_callers s)"
    using inv by (simp add: past_test_def)
  then have ok: "caller_ok calls0 answers ?m ?pc"
    using True by (simp add: list_all_length)
  have ans: "namespaces_answer (sys_kube s) = answers"
    and calls: "namespaces_calls (sys_kube s) = calls0 + ?m"
    using inv by (simp_all add: past_test_def)
  note r = caller_step_ok [OF ok ans calls st]
  let ?m' = "sum_list (map calls_made ((sys_callers s)[i := pc']))"
  have m': "?m' = ?m + (calls_made pc' - calls_made ?pc)"
    using sum_made_update [OF True, of pc'] r by linarith
  have ok': "caller_ok calls0 answers ?m' pc'"
    using r unfolding m' by blast
  have le: "?m \<le> ?m'"
    unfolding m' by simp
  have calls': "namespaces_calls k' = calls0 + ?m'"
    using r unfolding m' by blast
  have ans': "namespaces_answer k' = answers"
    using r by blast
  have s': "step ttl s i = \<lparr>sys_cluster = c', sys_kube = k', sys_callers = (sys_callers s)[i := pc']\<rparr>"
    using True st by (simp add: step_def)
  have "caller_ok calls0 answers ?m' pc" if "pc \<in> set ((sys_callers s)[i := pc'])" for pc
  proof -
    from that have "pc = pc' \<or> pc \<in> set (sys_callers s)"
      using set_update_subset_insert [of "sys_callers s" i pc'] by auto
    then show ?thesis
    proof
      assume "pc = pc'"
      then show ?thesis using ok' by simp
    next
      assume "pc \<in> set (sys_callers s)"
      then have "caller_ok calls0 answers ?m pc" using all by (simp add: list_all_iff)
      then show ?thesis using le by (rule caller_ok_mono)
    qed
  qed
  then have "list_all (caller_ok calls0 answers ?m') ((sys_callers s)[i := pc'])"
    by (simp add: list_all_iff)
  then show ?thesis
    using ans' calls' unfolding s' past_test_def by simp
qed

lemma run_past_test: "past_test calls0 answers s \<Longrightarrow> past_test calls0 answers (run ttl s schedule)"
  unfolding run_def by (induction schedule arbitrary: s) (simp_all add: step_past_test)

lemma step_length: "length (sys_callers (step ttl s i)) = length (sys_callers s)"
  by (auto simp: step_def split: prod.splits)

lemma run_length: "length (sys_callers (run ttl s schedule)) = length (sys_callers s)"
  unfolding run_def by (induction schedule arbitrary: s) (simp_all add: step_length)

lemma all_returned_made: "list_all is_Returned xs \<Longrightarrow> sum_list (map calls_made xs) = length xs"
proof (induction xs)
  case Nil
  then show ?case by simp
next
  case (Cons x xs)
  then show ?case by (cases x) simp_all
qed

lemma test_step_expired:
  "\<not> Time_After (namespacesLastFetch (cache (sys_cluster s))) (Time_Add (clock (sys_kube s)) (- 1 * ttl)) \<Longrightarrow>
   i < length (sys_callers s) \<Longrightarrow> sys_callers s ! i = Start \<Longrightarrow>
   step ttl s i = s\<lparr>sys_callers := (sys_callers s)[i := Calling]\<rparr>"
  by (simp add: step_def caller_step_def del: mult_minus1)

lemma all_test_expired:
  "\<not> Time_After (namespacesLastFetch (cache (sys_cluster s))) (Time_Add (clock (sys_kube s)) (- 1 * ttl)) \<Longrightarrow>
   sys_callers s = replicate n Calling @ replicate m Start \<Longrightarrow>
   run ttl s [n..<n + m] = s\<lparr>sys_callers := replicate (n + m) Calling\<rparr>"
proof (induction m arbitrary: n s)
  case 0
  then show ?case by (simp add: run_def)
next
  case (Suc m)
  let ?s1 = "s\<lparr>sys_callers := replicate (Suc n) Calling @ replicate m Start\<rparr>"
  have upd: "(sys_callers s)[n := Calling] = replicate (Suc n) Calling @ replicate m Start"
    using Suc.prems(2) by (simp add: list_update_append replicate_append_same)
  have "step ttl s n = ?s1"
    using test_step_expired [of s ttl n] Suc.prems upd by (simp add: nth_append)
  moreover have "run ttl ?s1 [Suc n..<Suc n + m] = ?s1\<lparr>sys_callers := replicate (Suc n + m) Calling\<rparr>"
    using Suc.prems(1) by (intro Suc.IH) simp_all
  ultimately show ?case
    by (simp add: run_def upt_conv_Cons del: upt_Suc)
qed

text \<open>
  Only the expiry test reads the cache: the next point of a caller that is past it, and
  what it does to the API server, do not depend on the cluster.
\<close>

lemma only_test_reads_cache:
  "pc \<noteq> Start \<Longrightarrow>
   fst (caller_step ttl pc c k) = fst (caller_step ttl pc c' k) \<and>
   snd (snd (caller_step ttl pc c k)) = snd (snd (caller_step ttl pc c' k))"
  by (cases pc) (auto simp: caller_step_def split: prod.splits sum.splits)

lemma caller_ok_not_Start: "caller_ok calls0 answers m pc \<Longrightarrow> pc \<noteq> Start"
  by (auto simp: caller_ok_def)

lemma past_test_no_read: "past_test calls0 answers s \<Longrightarrow> \<not> reads_cache s i"
  using caller_ok_not_Start by (fastforce simp: past_test_def list_all_length reads_cache_def)

text \<open>
  C3, as the code has it: \<open>N\<close> callers that start together on an expired cache all find
  it expired (after each has made its test, each is about to call). Whatever the order
  of their further steps, once all have returned, \<open>N\<close> list calls have been made, one by
  each caller, and each caller has returned what one of these \<open>N\<close> calls gave. At no
  point of their further steps, in any order, does a caller read the cache again, so no
  caller observes a torn cache entry.
\<close>

theorem concurrent_callers_fetch_each:
  assumes expired: "\<not> Time_After (namespacesLastFetch (cache (sys_cluster s)))
                        (Time_Add (clock (sys_kube s)) (- 1 * ttl))"
    and start: "sys_callers s = replicate N Start"
    and fin: "list_all is_Returned (sys_callers (run ttl (run ttl s [0..<N]) schedule))"
  shows "sys_callers (run ttl s [0..<N]) = replicate N Calling \<and>
         namespaces_calls (sys_kube (run ttl (run ttl s [0..<N]) schedule)) =
           namespaces_calls (sys_kube s) + N \<and>
         (\<forall>i<N. \<exists>j<N. sys_callers (run ttl (run ttl s [0..<N]) schedule) ! i =
            Returned (fetched (namespaces_answer (sys_kube s)) (namespaces_calls (sys_kube s) + j))) \<and>
         (\<forall>steps i. \<not> reads_cache (run ttl (run ttl s [0..<N]) steps) i \<and>
            \<not> observes_torn (run ttl (run ttl s [0..<N]) steps) i)"
proof -
  let ?s1 = "run ttl s [0..<N]"
  let ?s2 = "run ttl ?s1 schedule"
  let ?calls0 = "namespaces_calls (sys_kube s)"
  let ?answers = "namespaces_answer (sys_kube s)"
  have s1: "?s1 = s\<lparr>sys_callers := replicate N Calling\<rparr>"
    using all_test_expired [of s ttl 0 N] expired start by simp
  have "past_test ?calls0 ?answers ?s1"
    unfolding s1 by (simp add: past_test_def list_all_iff caller_ok_def)
  then have inv1: "past_test ?calls0 ?answers ?s1" .
  then have inv: "past_test ?calls0 ?answers ?s2" by (rule run_past_test)
  have unread: "\<not> reads_cache (run ttl ?s1 steps) i \<and> \<not> observes_torn (run ttl ?s1 steps) i"
    for steps i
    using past_test_no_read [OF run_past_test [OF inv1, of ttl steps], of i]
    by (simp add: observes_torn_def)
  have len: "length (sys_callers ?s2) = N"
    using run_length [of ttl ?s1 schedule] by (simp add: s1)
  have made: "sum_list (map calls_made (sys_callers ?s2)) = N"
    using all_returned_made [OF fin] len by simp
  have calls: "namespaces_calls (sys_kube ?s2) = ?calls0 + N"
    using inv made by (simp add: past_test_def)
  have each: "\<exists>j<N. sys_callers ?s2 ! i = Returned (fetched ?answers (?calls0 + j))" if "i < N" for i
  proof -
    have ok: "caller_ok ?calls0 ?answers N (sys_callers ?s2 ! i)"
      using inv made that len by (simp add: past_test_def list_all_length)
    have "is_Returned (sys_callers ?s2 ! i)"
      using fin that len by (simp add: list_all_length)
    then obtain r where r: "sys_callers ?s2 ! i = Returned r"
      by (cases "sys_callers ?s2 ! i") simp_all
    with ok show ?thesis by (auto simp: caller_ok_def)
  qed
  show ?thesis using s1 calls each unread by simp
qed


theorem concurrent_callers_fetch_each_witness:
  "sys_callers (run 60 two_callers [0..<Suc (Suc 0)]) = [Calling, Calling] \<and>
   namespaces_calls (sys_kube (run 60 (run 60 two_callers [0..<Suc (Suc 0)]) [1, 0, 0, 1, 1, 0])) = 2 \<and>
   torn (run 60 (run 60 two_callers [0..<Suc (Suc 0)]) [1, 1]) \<and>
   \<not> observes_torn (run 60 (run 60 two_callers [0..<Suc (Suc 0)]) [1, 1]) 0"
  using concurrent_callers_fetch_each [of two_callers 60 "Suc (Suc 0)" "[1, 0, 0, 1, 1, 0]"]
  by (simp add: two_callers_def run_def step_def caller_step_def Namespaces_List_def
      Time_After_def Time_Add_def torn_def observes_torn_def reads_cache_def)

text \<open>
  Two callers at the expiry of the cache: both find it expired, two list calls are made,
  and the callers return different lists (the second call sees a namespace more).
\<close>

theorem concurrent_callers_counterexample:
  "sys_callers (run 60 two_callers [0, 1]) = [Calling, Calling] \<and>
   namespaces_calls (sys_kube (run 60 two_callers [0, 1, 0, 1, 0, 1, 0, 1])) = 2 \<and>
   sys_callers (run 60 two_callers [0, 1, 0, 1, 0, 1, 0, 1]) =
     [Returned (Inr [''default'']), Returned (Inr [''default'', ''team-a''])]"
  by (simp add: two_callers_def run_def step_def caller_step_def Namespaces_List_def
      Time_After_def Time_Add_def)

subsection \<open>GetResources\<close>

text \<open>
  C9: \<open>GetResources\<close> sends exactly one request and returns the client's answer to it,
  bytes or error, as it is. With a name the request asks for that one object, in the
  namespace when one is given and without a namespace otherwise, and carries no
  parameter; without a name it is the list request in the namespace, carrying the
  parameter \<open>paramName = param\<close>.
\<close>

theorem GetResources_forwards:
  "GetResources cl ns nm path rs paramName param =
     (let request =
        (if nm \<noteq> [] then
           (if ns \<noteq> [] then
              \<lparr>req_verb = ''GET'', req_absPath = path, req_namespace = Some ns, req_resource = rs,
               req_name = Some nm, req_params = []\<rparr>
            else
              \<lparr>req_verb = ''GET'', req_absPath = path, req_namespace = None, req_resource = rs,
               req_name = Some nm, req_params = []\<rparr>)
         else
           \<lparr>req_verb = ''GET'', req_absPath = path, req_namespace = Some ns, req_resource = rs,
            req_name = None, req_params = [(paramName, param)]\<rparr>)
      in (respond cl request, cl\<lparr>sent := sent cl @ [request]\<rparr>))"
  by (simp add: GetResources_def DoRaw_def Let_def Get_def AbsPath_def Namespace_def Resource_def
      Name_def Param_def split: sum.splits)

subsection \<open>GetLogs\<close>

lemma strings_Split_nonempty: "strings_Split s sep \<noteq> []"
  by (induction s) (auto split: list.splits)

lemma strings_Join_Cons: "ls \<noteq> [] \<Longrightarrow> strings_Join (l # ls) sep = l @ sep @ strings_Join ls sep"
  by (cases ls) simp_all

text \<open>The pieces of \<open>strings.Split\<close>, joined by the separator, are the string again.\<close>

lemma strings_Join_Split: "strings_Join (strings_Split s sep) [sep] = s"
proof (induction s)
  case Nil
  then show ?case by simp
next
  case (Cons c cs)
  show ?case
  proof (cases "c = sep")
    case True
    with Cons show ?thesis by (simp add: strings_Join_Cons strings_Split_nonempty)
  next
    case False
    obtain l ls where sp: "strings_Split cs sep = l # ls"
      using strings_Split_nonempty [of cs sep] by (cases "strings_Split cs sep") auto
    with Cons False show ?thesis by (cases ls) auto
  qed
qed

lemma strings_Split_no_sep: "l \<in> set (strings_Split s sep) \<Longrightarrow> sep \<notin> set l"
  by (induction s arbitrary: l) (auto split: if_splits list.splits)

lemma strings_Split_length: "length (strings_Split s sep) = Suc (count_list s sep)"
  by (induction s) (auto split: list.splits simp: strings_Split_nonempty)

lemma foldl_append_all: "foldl (\<lambda>logs line. logs @ [line]) acc ls = acc @ ls"
  by (induction ls arbitrary: acc) simp_all

lemma foldl_append_matching:
  "foldl (\<lambda>logs line. if reg line then logs @ [line] else logs) acc ls = acc @ filter reg ls"
  by (induction ls arbitrary: acc) simp_all

text \<open>
  C8: when the log request succeeds with \<open>payload\<close>, \<open>GetLogs\<close> returns the pieces of the
  payload between newlines, joined by the terminator \<open>\n\r\<close> and followed by it: all of
  them without a regular expression; with one that compiles, those it matches, in their
  order; and the compile error, not the lines, with one that does not compile. The
  pieces are the lines of the payload: joined by newlines they are the payload.
\<close>

theorem GetLogs_lines:
  "podLogs ns nm (GetLogs_options container since tail previous) = Inr payload \<Longrightarrow>
   (regex = [] \<longrightarrow>
      GetLogs podLogs regexp_Compile ns nm container regex since tail previous =
        Inr (strings_Join (strings_Split payload LF) [LF, CR] @ [LF, CR])) \<and>
   (\<forall>reg. regex \<noteq> [] \<and> regexp_Compile regex = Inr reg \<longrightarrow>
      GetLogs podLogs regexp_Compile ns nm container regex since tail previous =
        Inr (strings_Join (filter reg (strings_Split payload LF)) [LF, CR] @ [LF, CR])) \<and>
   (\<forall>err. regex \<noteq> [] \<and> regexp_Compile regex = Inl err \<longrightarrow>
      GetLogs podLogs regexp_Compile ns nm container regex since tail previous = Inl err) \<and>
   strings_Join (strings_Split payload LF) [LF] = payload"
  by (simp add: GetLogs_def foldl_append_all foldl_append_matching strings_Join_Split)

theorem GetLogs_lines_witness:
  "GetLogs (\<lambda>ns nm opts. Inr [CHR ''a'', LF, CHR ''b'', LF]) (\<lambda>r. Inl (Error ''bad''))
       ''ns'' ''pod'' ''c'' [] 0 10 False
     = Inr [CHR ''a'', LF, CR, CHR ''b'', LF, CR, LF, CR] \<and>
   GetLogs (\<lambda>ns nm opts. Inr [CHR ''a'', LF, CHR ''b'', LF]) (\<lambda>r. Inr (\<lambda>l. l = ''b''))
       ''ns'' ''pod'' ''c'' ''^b$'' 0 10 False
     = Inr [CHR ''b'', LF, CR] \<and>
   GetLogs (\<lambda>ns nm opts. Inr [CHR ''a'', LF, CHR ''b'', LF]) (\<lambda>r. Inl (Error ''bad''))
       ''ns'' ''pod'' ''c'' ''('' 0 10 False
     = Inl (Error ''bad'')"
  using GetLogs_lines [of "\<lambda>ns nm opts. Inr [CHR ''a'', LF, CHR ''b'', LF]" "''ns''" "''pod''" "''c''" 0 10
      False "[CHR ''a'', LF, CHR ''b'', LF]" "[]" "\<lambda>r. Inl (Error ''bad'')"]
    GetLogs_lines [of "\<lambda>ns nm opts. Inr [CHR ''a'', LF, CHR ''b'', LF]" "''ns''" "''pod''" "''c''" 0 10
      False "[CHR ''a'', LF, CHR ''b'', LF]" "''^b$''" "\<lambda>r. Inr (\<lambda>l. l = ''b'')"]
    GetLogs_lines [of "\<lambda>ns nm opts. Inr [CHR ''a'', LF, CHR ''b'', LF]" "''ns''" "''pod''" "''c''" 0 10
      False "[CHR ''a'', LF, CHR ''b'', LF]" "''(''" "\<lambda>r. Inl (Error ''bad'')"]
  by (simp add: LF_def CR_def)

subsection \<open>StreamLogs\<close>

lemma fill_tries_at_end:
  "chunks (rd b) = [] \<Longrightarrow> fill_tries (Suc n) b = b\<lparr>rerr := Some (final (rd b))\<rparr>"
  by (simp add: Stream_Read_def)

lemma fill_tries_more:
  "chunks (rd b) = c # cs \<Longrightarrow> c \<noteq> [] \<Longrightarrow> length (window b) < 16 \<Longrightarrow>
   fill_tries (Suc n) b =
     b\<lparr>rd := (rd b)\<lparr>chunks := (if drop (min (16 - length (window b)) (length c)) c = [] then cs
                         else drop (min (16 - length (window b)) (length c)) c # cs)\<rparr>,
       window := window b @ take (min (16 - length (window b)) (length c)) c\<rparr>"
  by (simp add: Stream_Read_def Let_def)

lemma hundred: "(100::nat) = Suc 99"
  by simp

lemma fill_at_end:
  "chunks (rd b) = [] \<Longrightarrow> fill b = b\<lparr>rerr := Some (final (rd b))\<rparr>"
  unfolding fill_def hundred by (rule fill_tries_at_end)

lemma fill_more:
  assumes c: "chunks (rd b) = c # cs" and ne: "c \<noteq> []" and small: "length (window b) < 16"
  shows "fill b = b\<lparr>rd := (rd b)\<lparr>chunks := (if drop (min (16 - length (window b)) (length c)) c = [] then cs
                         else drop (min (16 - length (window b)) (length c)) c # cs)\<rparr>,
                  window := window b @ take (min (16 - length (window b)) (length c)) c\<rparr>"
  unfolding fill_def hundred using assms by (rule fill_tries_more)

lemma take_drop_chunk:
  "take n c @ concat (if drop n c = [] then cs else drop n c # cs) = c @ concat cs"
proof (cases "drop n c = []")
  case True
  then show ?thesis by simp
next
  case False
  have "take n c @ drop n c @ concat cs = c @ concat cs"
    by (simp flip: append_assoc)
  with False show ?thesis by simp
qed

lemma fill_reading:
  assumes r: "reading b" and none: "rerr b = None" and small: "length (window b) < 16"
    and nolf: "LF \<notin> set (window b)"
  shows "reading (fill b) \<and> remaining (fill b) = remaining b \<and> final (rd (fill b)) = final (rd b)"
proof (cases "chunks (rd b)")
  case Nil
  then show ?thesis
    using r small nolf by (simp add: fill_at_end reading_def remaining_def)
next
  case (Cons c cs)
  then have ne: "c \<noteq> []" using r by (auto simp: reading_def)
  let ?n = "min (16 - length (window b)) (length c)"
  have f: "fill b = b\<lparr>rd := (rd b)\<lparr>chunks := (if drop ?n c = [] then cs else drop ?n c # cs)\<rparr>,
                  window := window b @ take ?n c\<rparr>"
    by (rule fill_more [OF Cons ne small])
  have "take ?n c @ concat (if drop ?n c = [] then cs else drop ?n c # cs) = c @ concat cs"
    by (rule take_drop_chunk)
  then have rem: "remaining (fill b) = remaining b"
    unfolding f remaining_def using Cons by simp
  have "reading (fill b)"
    unfolding f using r none small Cons by (auto simp: reading_def)
  then show ?thesis using rem unfolding f by simp
qed

lemma take_through_delim:
  "d \<in> set w \<Longrightarrow> take (length (takeWhile (\<lambda>c. c \<noteq> d) w) + 1) w = takeWhile (\<lambda>c. c \<noteq> d) w @ [d]"
  by (induction w) auto

lemma delim_position: "d \<in> set w \<Longrightarrow> length (takeWhile (\<lambda>c. c \<noteq> d) w) < length w"
  by (induction w) auto

lemma ReadSlice_found:
  assumes "LF \<in> set (window b)"
  shows "ReadSlice LF b =
     ((takeWhile (\<lambda>c. c \<noteq> LF) (window b) @ [LF], None),
      b\<lparr>window := drop (length (takeWhile (\<lambda>c. c \<noteq> LF) (window b)) + 1) (window b)\<rparr>)"
  using assms take_through_delim [of LF "window b"]
  by (subst ReadSlice.simps) (simp add: Let_def)

text \<open>
  \<open>ReadSlice\<close> returns the bytes through the first newline among the next 16, or the
  next 16 bytes with \<open>ErrBufferFull\<close>, or what is left with the error of the stream,
  however the bytes are cut into chunks.
\<close>

lemma ReadSlice_spec:
  "reading b \<Longrightarrow>
   \<exists>b'. ReadSlice LF b =
          ((slice_line (remaining b), slice_err (final (rd b)) (remaining b)), b') \<and>
        reading b' \<and> rerr b' = None \<and>
        remaining b' = drop (length (slice_line (remaining b))) (remaining b) \<and>
        final (rd b') = final (rd b) \<and>
        (LF \<notin> set (take 16 (remaining b)) \<longrightarrow> window b' = [])"
proof (induction "LF" b rule: ReadSlice.induct)
  case (1 b)
  let ?w = "window b"
  let ?R = "remaining b"
  have len: "length ?w \<le> 16" using "1.prems" by (simp add: reading_def)
  have t16: "take 16 ?R = ?w @ take (16 - length ?w) (concat (chunks (rd b)))"
    using len by (simp add: remaining_def)
  show ?case
  proof (cases "LF \<in> set ?w")
    case True
    then have in16: "LF \<in> set (take 16 ?R)" using t16 by simp
    have none: "rerr b = None" using "1.prems" True by (auto simp: reading_def)
    have tw: "takeWhile (\<lambda>c. c \<noteq> LF) ?R = takeWhile (\<lambda>c. c \<noteq> LF) ?w"
      unfolding remaining_def using True by (intro takeWhile_append1 [of LF]) simp_all
    let ?i = "length (takeWhile (\<lambda>c. c \<noteq> LF) ?w)"
    have pos: "?i < length ?w" using True by (rule delim_position)
    let ?b' = "b\<lparr>window := drop (?i + 1) ?w\<rparr>"
    have "ReadSlice LF b = ((slice_line ?R, slice_err (final (rd b)) ?R), ?b')"
      using ReadSlice_found [OF True] in16 tw by (simp add: slice_line_def slice_err_def)
    moreover have "reading ?b'" using "1.prems" none by (auto simp: reading_def)
    moreover have "remaining ?b' = drop (length (slice_line ?R)) ?R"
      using in16 tw pos by (simp add: slice_line_def remaining_def)
    ultimately show ?thesis using none in16 by auto
  next
    case nolf: False
    show ?thesis
    proof (cases "rerr b = None")
      case False
      then have e: "rerr b = Some (final (rd b))" and ch: "chunks (rd b) = []"
        and small: "length ?w < 16"
        using "1.prems" by (auto simp: reading_def)
      have R: "?R = ?w" using ch by (simp add: remaining_def)
      let ?b' = "b\<lparr>window := [], rerr := None\<rparr>"
      have "ReadSlice LF b = ((?w, rerr b), ?b')"
        using nolf False by (subst ReadSlice.simps) simp
      then have "ReadSlice LF b = ((slice_line ?R, slice_err (final (rd b)) ?R), ?b')"
        using nolf small e by (simp add: R slice_line_def slice_err_def)
      moreover have "reading ?b'" using ch by (simp add: reading_def)
      moreover have "remaining ?b' = drop (length (slice_line ?R)) ?R"
        using nolf small ch by (simp add: R slice_line_def remaining_def)
      ultimately show ?thesis by auto
    next
      case none: True
      show ?thesis
      proof (cases "16 \<le> length ?w")
        case True
        then have full: "length ?w = 16" using len by simp
        then have t: "take 16 ?R = ?w" by (simp add: remaining_def)
        let ?b' = "b\<lparr>window := []\<rparr>"
        have "ReadSlice LF b = ((?w, Some bufio_ErrBufferFull), ?b')"
          using nolf none True by (subst ReadSlice.simps) simp
        moreover have "slice_line ?R = ?w" "slice_err (final (rd b)) ?R = Some bufio_ErrBufferFull"
          using nolf t full by (simp_all add: slice_line_def slice_err_def remaining_def)
        moreover have "reading ?b'" using "1.prems" none by (simp add: reading_def)
        moreover have "remaining ?b' = drop (length (slice_line ?R)) ?R"
          using nolf t full by (simp add: slice_line_def remaining_def)
        ultimately show ?thesis using none by auto
      next
        case False
        then have small: "length ?w < 16" by simp
        have f: "reading (fill b)" "remaining (fill b) = ?R" "final (rd (fill b)) = final (rd b)"
          using fill_reading [OF "1.prems" none small nolf] by simp_all
        have unfold: "ReadSlice LF b = ReadSlice LF (fill b)"
          using nolf none False by (subst ReadSlice.simps) simp
        from "1.hyps" [OF nolf _ False f(1)] none show ?thesis
          unfolding unfold f(2) f(3) by simp
      qed
    qed
  qed
qed

lemma strip_line_end:
  "(let line = body @ [LF];
        drop = (if length line > 1 \<and> line ! (length line - 2) = CR then 2 else 1)
    in take (length line - drop) line) =
   (if body \<noteq> [] \<and> last body = CR then butlast body else body)"
proof (cases "body = []")
  case True
  then show ?thesis by simp
next
  case False
  then have "(body @ [LF]) ! (length body - 1) = last body"
    by (simp add: nth_append last_conv_nth)
  moreover have "take (length body - 1) body = butlast body"
    by (simp add: butlast_conv_take)
  ultimately show ?thesis using False by (simp add: Let_def)
qed

lemma last_take16: "16 \<le> length R \<Longrightarrow> last (take 16 R) = R ! 15"
proof -
  assume a: "16 \<le> length R"
  then have "take 16 R \<noteq> []" by auto
  then have "last (take 16 R) = take 16 R ! (length (take 16 R) - 1)"
    by (rule last_conv_nth)
  also have "\<dots> = R ! 15" using a by simp
  finally show ?thesis .
qed

lemma ReadLine_spec:
  assumes r: "reading b" and fin: "final (rd b) \<noteq> bufio_ErrBufferFull"
  shows "\<exists>b'. ReadLine b = (fst (next_line (final (rd b)) (remaining b)), b') \<and>
        reading b' \<and> rerr b' = None \<and>
        remaining b' = snd (next_line (final (rd b)) (remaining b)) \<and>
        final (rd b') = final (rd b)"
proof -
  let ?R = "remaining b"
  let ?fin = "final (rd b)"
  obtain b1 where sl: "ReadSlice LF b = ((slice_line ?R, slice_err ?fin ?R), b1)"
    and r1: "reading b1" and e1: "rerr b1 = None"
    and rem1: "remaining b1 = drop (length (slice_line ?R)) ?R"
    and fin1: "final (rd b1) = ?fin"
    and w1: "LF \<notin> set (take 16 ?R) \<longrightarrow> window b1 = []"
    using ReadSlice_spec [OF r] by blast
  show ?thesis
  proof (cases "LF \<in> set (take 16 ?R)")
    case True
    let ?body = "takeWhile (\<lambda>c. c \<noteq> LF) ?R"
    have line: "slice_line ?R = ?body @ [LF]" and err: "slice_err ?fin ?R = None"
      using True by (simp_all add: slice_line_def slice_err_def)
    have "ReadLine b = ((if ?body \<noteq> [] \<and> last ?body = CR then butlast ?body else ?body, False, None), b1)"
      using strip_line_end [of ?body]
      unfolding ReadLine_def sl line err by (simp add: Let_def)
    then show ?thesis
      using True r1 e1 rem1 fin1 by (simp add: next_line_def line Let_def)
  next
    case nolf: False
    show ?thesis
    proof (cases "16 \<le> length ?R")
      case True
      have line: "slice_line ?R = take 16 ?R" and err: "slice_err ?fin ?R = Some bufio_ErrBufferFull"
        using nolf True by (simp_all add: slice_line_def slice_err_def)
      have len: "length (take 16 ?R) = 16" using True by simp
      have w: "window b1 = []" using w1 nolf by simp
      have rem16: "remaining b1 = drop 16 ?R" using rem1 line len by simp
      show ?thesis
      proof (cases "last (take 16 ?R) = CR")
        case cr: True
        let ?b' = "b1\<lparr>window := CR # window b1\<rparr>"
        have "ReadLine b = ((butlast (take 16 ?R), True, None), ?b')"
          unfolding ReadLine_def sl line err using cr len by simp
        moreover have "butlast (take 16 ?R) = take 15 ?R"
          using True by (simp add: butlast_take)
        moreover have "?R ! 15 = CR"
          using cr last_take16 [OF True] by simp
        then have "CR # drop 16 ?R = drop 15 ?R"
          using True Cons_nth_drop_Suc [of 15 ?R] by simp
        then have "remaining ?b' = drop 15 ?R"
          using rem16 w by (simp add: remaining_def)
        moreover have "reading ?b'" using r1 e1 w by (simp add: reading_def)
        ultimately show ?thesis
          using nolf True cr e1 fin1 by (simp add: next_line_def)
      next
        case nocr: False
        have "ReadLine b = ((take 16 ?R, True, None), b1)"
          unfolding ReadLine_def sl line err using nocr len by simp
        then show ?thesis
          using nolf True nocr r1 e1 rem16 fin1 by (simp add: next_line_def)
      qed
    next
      case False
      then have all: "take 16 ?R = ?R" by simp
      have line: "slice_line ?R = ?R" and err: "slice_err ?fin ?R = Some ?fin"
        using nolf False by (simp_all add: slice_line_def slice_err_def)
      have rem0: "remaining b1 = []" using rem1 line by simp
      show ?thesis
      proof (cases "?R = []")
        case True
        have "ReadLine b = (([], False, Some ?fin), b1)"
          unfolding ReadLine_def sl line err using fin True by simp
        then show ?thesis
          using nolf False True r1 e1 rem0 fin1 by (simp add: next_line_def)
      next
        case ne: False
        have "last ?R \<in> set ?R" using ne by (rule last_in_set)
        moreover have "LF \<notin> set ?R" using nolf all by simp
        ultimately have "last ?R \<noteq> LF" by metis
        then have "ReadLine b = ((?R, False, None), b1)"
          unfolding ReadLine_def sl line err using fin ne by simp
        then show ?thesis
          using nolf False ne r1 e1 rem0 fin1 by (simp add: next_line_def)
      qed
    qed
  qed
qed

lemma LF_not_CR: "LF \<noteq> CR"
  by (simp add: LF_def CR_def)

lemma logical_lines_LF: "logical_lines L (LF # rest) = L # logical_lines [] rest"
  using LF_not_CR by (cases rest) auto

lemma logical_lines_CRLF: "logical_lines L (CR # LF # rest) = L # logical_lines [] rest"
  by simp

lemma logical_lines_CR:
  "rest = [] \<or> hd rest \<noteq> LF \<Longrightarrow> logical_lines L (CR # rest) = L # logical_lines [] rest"
  by (cases rest) auto

lemma logical_lines_char:
  "c \<noteq> LF \<Longrightarrow> c \<noteq> CR \<Longrightarrow> logical_lines L (c # rest) = logical_lines (L @ [c]) rest"
  by (cases rest) auto

lemma strings_Split_Cons_sep: "strings_Split (sep # d) sep = [] # strings_Split d sep"
  by simp

lemma strings_Split_Cons_other:
  "c \<noteq> sep \<Longrightarrow> strings_Split (c # d) sep = (c # hd (strings_Split d sep)) # tl (strings_Split d sep)"
  using strings_Split_nonempty [of d sep] by (cases "strings_Split d sep") auto

lemma logical_lines_split:
  "LF \<notin> set data \<Longrightarrow> \<not> (data \<noteq> [] \<and> last data = CR \<and> R' \<noteq> [] \<and> hd R' = LF) \<Longrightarrow>
   logical_lines L (data @ R') =
     butlast (prep L (strings_Split data CR)) @ logical_lines (last (prep L (strings_Split data CR))) R'"
proof (induction data arbitrary: L)
  case Nil
  then show ?case by (simp add: prep_def)
next
  case (Cons c d)
  have nolf: "LF \<notin> set d" and c: "c \<noteq> LF" using Cons.prems(1) by auto
  have side: "\<not> (d \<noteq> [] \<and> last d = CR \<and> R' \<noteq> [] \<and> hd R' = LF)"
    using Cons.prems(2) by auto
  note ih = Cons.IH [OF nolf side]
  have ne: "strings_Split d CR \<noteq> []" by (rule strings_Split_nonempty)
  show ?case
  proof (cases "c = CR")
    case True
    have next_ok: "d @ R' = [] \<or> hd (d @ R') \<noteq> LF"
    proof (cases d)
      case Nil
      then show ?thesis using Cons.prems(2) True by auto
    next
      case (Cons x xs)
      then show ?thesis using nolf by auto
    qed
    have "logical_lines L ((c # d) @ R') = L # logical_lines [] (d @ R')"
      using True logical_lines_CR [OF next_ok] by simp
    also have "\<dots> = L # butlast (prep [] (strings_Split d CR)) @
        logical_lines (last (prep [] (strings_Split d CR))) R'"
      using ih [of "[]"] by simp
    also have "prep [] (strings_Split d CR) = strings_Split d CR"
      using ne by (simp add: prep_def)
    finally show ?thesis
      using True ne by (simp add: prep_def)
  next
    case False
    have "logical_lines L ((c # d) @ R') = logical_lines (L @ [c]) (d @ R')"
      using logical_lines_char [OF c False] by simp
    also have "\<dots> = butlast (prep (L @ [c]) (strings_Split d CR)) @
        logical_lines (last (prep (L @ [c]) (strings_Split d CR))) R'"
      by (rule ih)
    also have "prep (L @ [c]) (strings_Split d CR) = prep L (strings_Split (c # d) CR)"
      using False by (simp add: prep_def strings_Split_Cons_other del: strings_Split.simps)
    finally show ?thesis .
  qed
qed

lemma prep_nonempty: "prep L ps \<noteq> []"
  by (simp add: prep_def)

lemma logical_lines_line:
  assumes nolf: "LF \<notin> set body"
  shows "logical_lines L (body @ LF # R') =
     prep L (strings_Split (if body \<noteq> [] \<and> last body = CR then butlast body else body) CR)
       @ logical_lines [] R'"
proof (cases "body \<noteq> [] \<and> last body = CR")
  case False
  then have side: "\<not> (body \<noteq> [] \<and> last body = CR \<and> LF # R' \<noteq> [] \<and> hd (LF # R') = LF)"
    by simp
  have "logical_lines L (body @ LF # R') =
      butlast (prep L (strings_Split body CR)) @
        logical_lines (last (prep L (strings_Split body CR))) (LF # R')"
    by (rule logical_lines_split [OF nolf side])
  also have "\<dots> = (butlast (prep L (strings_Split body CR)) @ [last (prep L (strings_Split body CR))])
      @ logical_lines [] R'"
    by (simp add: logical_lines_LF)
  also have "butlast (prep L (strings_Split body CR)) @ [last (prep L (strings_Split body CR))] =
      prep L (strings_Split body CR)"
    using prep_nonempty by (rule append_butlast_last_id)
  finally show ?thesis using False by auto
next
  case True
  let ?b = "butlast body"
  have body: "body = ?b @ [CR]" using True by (metis append_butlast_last_id)
  have nolf': "LF \<notin> set ?b" using nolf by (meson in_set_butlastD)
  have side: "\<not> (?b \<noteq> [] \<and> last ?b = CR \<and> CR # LF # R' \<noteq> [] \<and> hd (CR # LF # R') = LF)"
    using LF_not_CR by simp
  have "logical_lines L (body @ LF # R') = logical_lines L (?b @ CR # LF # R')"
    by (subst body) simp
  also have "\<dots> = butlast (prep L (strings_Split ?b CR)) @
        logical_lines (last (prep L (strings_Split ?b CR))) (CR # LF # R')"
    by (rule logical_lines_split [OF nolf' side])
  also have "\<dots> = (butlast (prep L (strings_Split ?b CR)) @ [last (prep L (strings_Split ?b CR))])
      @ logical_lines [] R'"
    by (simp only: logical_lines_CRLF) simp
  also have "butlast (prep L (strings_Split ?b CR)) @ [last (prep L (strings_Split ?b CR))] =
      prep L (strings_Split ?b CR)"
    using prep_nonempty by (rule append_butlast_last_id)
  finally show ?thesis using True by auto
qed

lemma reassemble_line:
  "reassemble data False L = (prep L (strings_Split data CR), [])"
  using strings_Split_nonempty [of data CR]
  by (cases "strings_Split data CR") (auto simp: reassemble_def prep_def Let_def)

lemma reassemble_prefix:
  "reassemble data True L =
     (butlast (prep L (strings_Split data CR)), last (prep L (strings_Split data CR)))"
proof -
  obtain p ps where sp: "strings_Split data CR = p # ps"
    using strings_Split_nonempty [of data CR] by (cases "strings_Split data CR") auto
  have lines1: "(if length L > 0 then (p # ps)[0 := L @ (p # ps) ! 0] else p # ps) = prep L (p # ps)"
    by (simp add: prep_def)
  have len: "length (prep L (p # ps)) = length (p # ps)" by (simp add: prep_def)
  have "take (length (p # ps) - 1) (prep L (p # ps)) = butlast (prep L (p # ps))"
    using len by (simp add: butlast_conv_take)
  moreover have "prep L (p # ps) ! (length (p # ps) - 1) = last (prep L (p # ps))"
    using len prep_nonempty [of L "p # ps"] by (simp add: last_conv_nth)
  ultimately show ?thesis
    unfolding reassemble_def sp Let_def lines1 by simp
qed

lemma write_lines_all:
  "write_error conn = (\<lambda>k. None) \<Longrightarrow>
   write_lines ls conn = (None, conn\<lparr>written := written conn @ ls\<rparr>)"
  by (induction ls arbitrary: conn) (simp_all add: WriteMessage_def)

lemma loop_step_error:
  "ReadLine b = ((data, isPrefix, Some e), b') \<Longrightarrow> StreamLogs_loop b L conn = Some (e, conn)"
  by (subst StreamLogs_loop.simps) simp

lemma loop_step_line:
  "ReadLine b = ((data, False, None), b') \<Longrightarrow> write_error conn = (\<lambda>k. None) \<Longrightarrow>
   StreamLogs_loop b L conn =
     StreamLogs_loop b' [] (conn\<lparr>written := written conn @ prep L (strings_Split data CR)\<rparr>)"
  by (subst StreamLogs_loop.simps) (simp add: reassemble_line write_lines_all)

lemma loop_step_prefix:
  "ReadLine b = ((data, True, None), b') \<Longrightarrow> write_error conn = (\<lambda>k. None) \<Longrightarrow>
   StreamLogs_loop b L conn =
     StreamLogs_loop b' (last (prep L (strings_Split data CR)))
       (conn\<lparr>written := written conn @ butlast (prep L (strings_Split data CR))\<rparr>)"
  by (subst StreamLogs_loop.simps) (simp add: reassemble_prefix write_lines_all)

lemma last_drop: "n < length R \<Longrightarrow> last (drop n R) = last R"
  by simp

text \<open>
  The loop, from any point between two reads, on a log that ends with a newline: it
  writes the logical lines of what is still to come, the first one continuing
  \<open>lastLine\<close>, and returns \<open>io.EOF\<close>.
\<close>

lemma StreamLogs_loop_terminated:
  assumes "reading b" and "final (rd b) = io_EOF" and "write_error conn = (\<lambda>k. None)"
    and "remaining b = [] \<longrightarrow> L = []" and "remaining b \<noteq> [] \<longrightarrow> last (remaining b) = LF"
  shows "StreamLogs_loop b L conn =
     Some (io_EOF, conn\<lparr>written := written conn @ logical_lines L (remaining b)\<rparr>)"
  using assms
proof (induction "length (remaining b)" arbitrary: b L conn rule: less_induct)
  case less
  let ?R = "remaining b"
  have fin: "final (rd b) \<noteq> bufio_ErrBufferFull" using less.prems(2) by simp
  obtain b' where rl: "ReadLine b = (fst (next_line io_EOF ?R), b')"
    and r': "reading b'" and rem': "remaining b' = snd (next_line io_EOF ?R)"
    and fin': "final (rd b') = io_EOF"
    using ReadLine_spec [OF less.prems(1) fin] less.prems(2) by auto
  show ?case
  proof (cases "?R = []")
    case True
    then have "ReadLine b = (([], False, Some io_EOF), b')"
      using rl by (simp add: next_line_def)
    then have "StreamLogs_loop b L conn = Some (io_EOF, conn)"
      by (rule loop_step_error)
    moreover have "L = []" using less.prems(4) True by simp
    ultimately show ?thesis using True by simp
  next
    case ne: False
    then have lastR: "last ?R = LF" using less.prems(5) by simp
    then have inR: "LF \<in> set ?R" using ne last_in_set [of ?R] by metis
    show ?thesis
    proof (cases "LF \<in> set (take 16 ?R)")
      case True
      let ?body = "takeWhile (\<lambda>c. c \<noteq> LF) ?R"
      let ?data = "if ?body \<noteq> [] \<and> last ?body = CR then butlast ?body else ?body"
      let ?R' = "drop (length ?body + 1) ?R"
      have nl: "next_line io_EOF ?R = ((?data, False, None), ?R')"
        using True by (simp add: next_line_def Let_def)
      have pos: "length ?body < length ?R" using inR by (rule delim_position)
      have split: "?R = ?body @ LF # ?R'"
      proof -
        have "dropWhile (\<lambda>c. c \<noteq> LF) ?R \<noteq> []" using inR by simp
        then have "hd (dropWhile (\<lambda>c. c \<noteq> LF) ?R) = LF"
          using hd_dropWhile [of "\<lambda>c. c \<noteq> LF" ?R] by simp
        then have "dropWhile (\<lambda>c. c \<noteq> LF) ?R = LF # tl (dropWhile (\<lambda>c. c \<noteq> LF) ?R)"
          using \<open>dropWhile (\<lambda>c. c \<noteq> LF) ?R \<noteq> []\<close> by (metis list.collapse)
        moreover have "tl (dropWhile (\<lambda>c. c \<noteq> LF) ?R) = ?R'"
          by (simp add: dropWhile_eq_drop drop_Suc tl_drop)
        moreover have "?R = ?body @ dropWhile (\<lambda>c. c \<noteq> LF) ?R" by simp
        ultimately show ?thesis by metis
      qed
      have nolf: "LF \<notin> set ?body" by (metis (mono_tags, lifting) set_takeWhileD)
      have shorter: "length (remaining b') < length ?R"
        using rem' nl pos by simp
      have endR': "remaining b' \<noteq> [] \<longrightarrow> last (remaining b') = LF"
        using rem' nl lastR by (auto simp: last_drop)
      let ?conn' = "conn\<lparr>written := written conn @ prep L (strings_Split ?data CR)\<rparr>"
      have "StreamLogs_loop b L conn = StreamLogs_loop b' [] ?conn'"
        using rl nl less.prems(3) by (intro loop_step_line) simp_all
      also have "\<dots> = Some (io_EOF, ?conn'\<lparr>written := written ?conn' @ logical_lines [] (remaining b')\<rparr>)"
        using less.prems(3) by (intro less.hyps [OF shorter r' fin' _ _ endR']) simp_all
      also have "logical_lines L ?R = prep L (strings_Split ?data CR) @ logical_lines [] ?R'"
        by (subst split) (rule logical_lines_line [OF nolf])
      then have "?conn'\<lparr>written := written ?conn' @ logical_lines [] (remaining b')\<rparr> =
          conn\<lparr>written := written conn @ logical_lines L ?R\<rparr>"
        using rem' nl by simp
      finally show ?thesis .
    next
      case nolf16: False
      have long: "16 < length ?R"
      proof (rule ccontr)
        assume "\<not> 16 < length ?R"
        then have "take 16 ?R = ?R" by simp
        with nolf16 inR show False by simp
      qed
      then have ge: "16 \<le> length ?R" by simp
      show ?thesis
      proof (cases "last (take 16 ?R) = CR")
        case cr: True
        let ?data = "take 15 ?R"
        let ?R' = "drop 15 ?R"
        have nl: "next_line io_EOF ?R = ((?data, True, None), ?R')"
          using nolf16 ge cr by (simp add: next_line_def)
        have at15: "?R ! 15 = CR" using cr last_take16 [OF ge] by simp
        have hd': "hd ?R' = CR" using at15 long by (simp add: hd_drop_conv_nth)
        have ne': "?R' \<noteq> []" using long by simp
        have nolf: "LF \<notin> set ?data"
          using nolf16 set_take_subset_set_take [of 15 16 ?R] by auto
        have side: "\<not> (?data \<noteq> [] \<and> last ?data = CR \<and> ?R' \<noteq> [] \<and> hd ?R' = LF)"
          using hd' LF_not_CR by simp
        have shorter: "length (remaining b') < length ?R"
          using rem' nl long by simp
        have endR': "remaining b' \<noteq> [] \<longrightarrow> last (remaining b') = LF"
          using rem' nl lastR long by (auto simp: last_drop)
        have neR': "remaining b' = [] \<longrightarrow> last (prep L (strings_Split ?data CR)) = []"
          using rem' nl ne' by simp
        let ?ps = "prep L (strings_Split ?data CR)"
        let ?conn' = "conn\<lparr>written := written conn @ butlast ?ps\<rparr>"
        have "StreamLogs_loop b L conn = StreamLogs_loop b' (last ?ps) ?conn'"
          using rl nl less.prems(3) by (intro loop_step_prefix) simp_all
        also have "\<dots> = Some (io_EOF, ?conn'\<lparr>written := written ?conn' @ logical_lines (last ?ps) (remaining b')\<rparr>)"
          using less.prems(3) by (intro less.hyps [OF shorter r' fin' _ neR' endR']) simp_all
        also have "logical_lines L (?data @ ?R') = butlast ?ps @ logical_lines (last ?ps) ?R'"
          by (rule logical_lines_split [OF nolf side])
        then have "?conn'\<lparr>written := written ?conn' @ logical_lines (last ?ps) (remaining b')\<rparr> =
            conn\<lparr>written := written conn @ logical_lines L ?R\<rparr>"
          using rem' nl by simp
        finally show ?thesis .
      next
        case nocr: False
        let ?data = "take 16 ?R"
        let ?R' = "drop 16 ?R"
        have nl: "next_line io_EOF ?R = ((?data, True, None), ?R')"
          using nolf16 ge nocr by (simp add: next_line_def)
        have ne': "?R' \<noteq> []" using long by simp
        have side: "\<not> (?data \<noteq> [] \<and> last ?data = CR \<and> ?R' \<noteq> [] \<and> hd ?R' = LF)"
          using nocr by simp
        have shorter: "length (remaining b') < length ?R"
          using rem' nl long by simp
        have endR': "remaining b' \<noteq> [] \<longrightarrow> last (remaining b') = LF"
          using rem' nl lastR long by (auto simp: last_drop)
        have neR': "remaining b' = [] \<longrightarrow> last (prep L (strings_Split ?data CR)) = []"
          using rem' nl ne' by simp
        let ?ps = "prep L (strings_Split ?data CR)"
        let ?conn' = "conn\<lparr>written := written conn @ butlast ?ps\<rparr>"
        have "StreamLogs_loop b L conn = StreamLogs_loop b' (last ?ps) ?conn'"
          using rl nl less.prems(3) by (intro loop_step_prefix) simp_all
        also have "\<dots> = Some (io_EOF, ?conn'\<lparr>written := written ?conn' @ logical_lines (last ?ps) (remaining b')\<rparr>)"
          using less.prems(3) by (intro less.hyps [OF shorter r' fin' _ neR' endR']) simp_all
        also have "logical_lines L (?data @ ?R') = butlast ?ps @ logical_lines (last ?ps) ?R'"
          by (rule logical_lines_split [OF nolf16 side])
        then have "?conn'\<lparr>written := written ?conn' @ logical_lines (last ?ps) (remaining b')\<rparr> =
            conn\<lparr>written := written conn @ logical_lines L ?R\<rparr>"
          using rem' nl by simp
        finally show ?thesis .
      qed
    qed
  qed
qed

text \<open>
  On every log that ends with a newline, in every partition into chunks, \<open>StreamLogs\<close>
  writes exactly the logical lines of the whole log, in order.
\<close>

lemma streamed_terminated_log:
  assumes "[] \<notin> set cs" and "concat cs = [] \<or> last (concat cs) = LF"
  shows "streamed cs = Some (io_EOF, logical_lines [] (concat cs))"
proof -
  let ?b = "NewReaderSize \<lparr>chunks = cs, final = io_EOF\<rparr>"
  let ?conn = "\<lparr>written = [], write_error = (\<lambda>k. None)\<rparr>"
  have "StreamLogs_loop ?b [] ?conn =
      Some (io_EOF, ?conn\<lparr>written := written ?conn @ logical_lines [] (remaining ?b)\<rparr>)"
    using assms by (intro StreamLogs_loop_terminated) (auto simp: NewReaderSize_def reading_def remaining_def)
  then show ?thesis
    by (simp add: streamed_def StreamLogs_def NewReaderSize_def remaining_def)
qed

text \<open>
  C1 fails on the code where the log does not end with a newline: a last line that has
  no line end and fills the 16-byte buffer exactly is read as a prefix (\<open>isPrefix\<close>),
  kept in \<open>lastLine\<close>, and dropped when the next \<open>ReadLine\<close> returns the end of the
  stream: \<open>StreamLogs\<close> returns \<open>io.EOF\<close> without writing it, whether the 16 bytes
  arrive in one chunk or byte by byte. The same log has one logical line. A last line
  of 15 or 17 bytes is written.
\<close>

theorem StreamLogs_drops_last_line:
  "streamed [''level=info ok=16''] = Some (io_EOF, []) \<and>
   streamed (map (\<lambda>c. [c]) ''level=info ok=16'') = Some (io_EOF, []) \<and>
   logical_lines [] ''level=info ok=16'' = [''level=info ok=16''] \<and>
   streamed [''level=info ok=1''] = Some (io_EOF, [''level=info ok=1'']) \<and>
   streamed [''level=info ok=160''] = Some (io_EOF, [''level=info ok=160''])"
  by code_simp

subsection \<open>GetTerminal\<close>

text \<open>
  C7: with a shell that is not on the allow-list \<open>GetTerminal\<close> returns an error and
  opens no exec session; with a listed shell, and a request URL that parses, it opens
  the exec session for that URL with the shell as its command and returns what the
  session returns. \<open>sh\<close> and \<open>bash\<close> are listed; \<open>bash; rm -rf /\<close> and \<open>zsh\<close> are not.
\<close>

theorem GetTerminal_shell:
  "(\<not> IsValidShell shell \<longrightarrow>
      fst (GetTerminal url_Parse StartProcess host ns nm container shell) \<noteq> None \<and>
      snd (GetTerminal url_Parse StartProcess host ns nm container shell) = []) \<and>
   (\<forall>u. IsValidShell shell \<and> url_Parse (GetTerminal_reqURL host ns nm container shell) = Inr u \<longrightarrow>
      GetTerminal url_Parse StartProcess host ns nm container shell =
        (StartProcess u [shell], [(u, [shell])])) \<and>
   IsValidShell ''sh'' \<and> IsValidShell ''bash'' \<and>
   \<not> IsValidShell ''bash; rm -rf /'' \<and> \<not> IsValidShell ''zsh''"
  by (auto simp: GetTerminal_def IsValidShell_def validShells_def Let_def split: sum.splits)

theorem GetTerminal_shell_witness:
  "GetTerminal (\<lambda>s. Inr s) (\<lambda>u cmd. None) ''https://k'' ''ns'' ''pod'' ''c'' ''bash'' =
     (None, [(GetTerminal_reqURL ''https://k'' ''ns'' ''pod'' ''c'' ''bash'', [''bash''])]) \<and>
   fst (GetTerminal (\<lambda>s. Inr s) (\<lambda>u cmd. None) ''https://k'' ''ns'' ''pod'' ''c'' ''zsh'') =
     Some (Error ''invalid shell zsh'') \<and>
   snd (GetTerminal (\<lambda>s. Inr s) (\<lambda>u cmd. None) ''https://k'' ''ns'' ''pod'' ''c'' ''zsh'') = []"
  using
    GetTerminal_shell [of "''bash''" "\<lambda>s. Inr s" "\<lambda>u cmd. None" "''https://k''" "''ns''" "''pod''" "''c''"]
    GetTerminal_shell [of "''zsh''" "\<lambda>s. Inr s" "\<lambda>u cmd. None" "''https://k''" "''ns''" "''pod''" "''c''"]
  by (simp add: GetTerminal_def IsValidShell_def validShells_def)

subsection \<open>loadCRDs\<close>

lemma attempt_fails_step:
  "attempt_fails D U (task_attempts t) \<Longrightarrow>
   loadCRDs_attempt D U t =
     Retry (t\<lparr>task_slept := task_slept t @ [task_offset t * Second],
              task_offset := task_offset t * 2,
              task_attempts := Suc (task_attempts t)\<rparr>)"
  by (auto simp: attempt_fails_def loadCRDs_attempt_def split: sum.splits)

lemma attempt_succeeds_step:
  "D (task_attempts t) = Inr res \<Longrightarrow> U res = Inr items \<Longrightarrow>
   loadCRDs_attempt D U t =
     Done (t\<lparr>task_cluster := append_crds (task_cluster t) items,
             task_attempts := Suc (task_attempts t)\<rparr>)"
  by (simp add: loadCRDs_attempt_def)

lemma attempt_not_fails:
  "\<not> attempt_fails D U i \<Longrightarrow> \<exists>res items. D i = Inr res \<and> U res = Inr items"
  by (auto simp: attempt_fails_def split: sum.splits)

lemma loadCRDs_after_failures:
  "(\<And>i. i < n \<Longrightarrow> attempt_fails D U (task_attempts t + i)) \<Longrightarrow>
   loadCRDs_after D U n t =
     Retry (t\<lparr>task_slept := task_slept t @ map (\<lambda>i. task_offset t * 2 ^ i * Second) [0..<n],
              task_offset := task_offset t * 2 ^ n,
              task_attempts := task_attempts t + n\<rparr>)"
proof (induction n arbitrary: t)
  case 0
  then show ?case by simp
next
  case (Suc n)
  let ?t1 = "t\<lparr>task_slept := task_slept t @ [task_offset t * Second],
              task_offset := task_offset t * 2,
              task_attempts := Suc (task_attempts t)\<rparr>"
  have first: "loadCRDs_attempt D U t = Retry ?t1"
    using Suc.prems [of 0] by (simp add: attempt_fails_step)
  have rest: "\<And>i. i < n \<Longrightarrow> attempt_fails D U (task_attempts ?t1 + i)"
    using Suc.prems by force
  have shift: "map (\<lambda>i. task_offset t * 2 ^ i * Second) [0..<Suc n] =
      (task_offset t * Second) # map (\<lambda>i. task_offset t * 2 * 2 ^ i * Second) [0..<n]"
    by (simp add: upt_conv_Cons map_Suc_upt [symmetric] mult.assoc del: upt_Suc)
  show ?case
    using Suc.IH [OF rest] first shift by (simp add: mult.assoc del: upt_Suc)
qed

lemma loadCRDs_loop_unroll:
  "loadCRDs_after D U n t = Retry t' \<Longrightarrow> loadCRDs_loop D U t = loadCRDs_loop D U t'"
proof (induction n arbitrary: t)
  case 0
  then show ?case by simp
next
  case (Suc n)
  then show ?case
    by (subst loadCRDs_loop.simps) (auto split: progress.splits)
qed

lemma loadCRDs_loop_success:
  assumes fails: "\<And>i. i < n \<Longrightarrow> attempt_fails D U (task_attempts t + i)"
    and fetch: "D (task_attempts t + n) = Inr res" and decode: "U res = Inr items"
  shows "loadCRDs_loop D U t =
     Some (t\<lparr>task_slept := task_slept t @ map (\<lambda>i. task_offset t * 2 ^ i * Second) [0..<n],
             task_offset := task_offset t * 2 ^ n,
             task_attempts := Suc (task_attempts t + n),
             task_cluster := append_crds (task_cluster t) items\<rparr>)"
proof -
  let ?t' = "t\<lparr>task_slept := task_slept t @ map (\<lambda>i. task_offset t * 2 ^ i * Second) [0..<n],
              task_offset := task_offset t * 2 ^ n,
              task_attempts := task_attempts t + n\<rparr>"
  have "loadCRDs_loop D U t = loadCRDs_loop D U ?t'"
    by (rule loadCRDs_loop_unroll [where n = n]) (rule loadCRDs_after_failures [OF fails])
  also have "\<dots> = Some (?t'\<lparr>task_cluster := append_crds (task_cluster ?t') items,
             task_attempts := Suc (task_attempts ?t')\<rparr>)"
    using fetch decode by (subst loadCRDs_loop.simps) (simp add: attempt_succeeds_step)
  finally show ?thesis by simp
qed

lemma loadCRDs_loop_returns_only_on_success:
  "loadCRDs_loop D U t = Some t' \<Longrightarrow> \<exists>i. \<not> attempt_fails D U i"
proof (induction rule: loadCRDs_loop.raw_induct [rotated 1, consumes 1])
  case (1 loop D U t t')
  show ?case
  proof (cases "attempt_fails D U (task_attempts t)")
    case True
    then show ?thesis using 1 by (auto simp: attempt_fails_step)
  next
    case False
    then show ?thesis by blast
  qed
qed

lemma loadCRDs_loop_returns_iff:
  "loadCRDs_loop D U \<lparr>task_cluster = c, task_offset = off, task_attempts = 0, task_slept = sl\<rparr> \<noteq> None
     \<longleftrightarrow> (\<exists>i. \<not> attempt_fails D U i)"
proof
  assume "loadCRDs_loop D U \<lparr>task_cluster = c, task_offset = off, task_attempts = 0, task_slept = sl\<rparr> \<noteq> None"
  then show "\<exists>i. \<not> attempt_fails D U i"
    using loadCRDs_loop_returns_only_on_success by blast
next
  assume "\<exists>i. \<not> attempt_fails D U i"
  then obtain n where n: "\<not> attempt_fails D U n" and least: "\<And>i. i < n \<Longrightarrow> attempt_fails D U i"
    using exists_least_iff [of "\<lambda>i. \<not> attempt_fails D U i"] by auto
  obtain res items where "D n = Inr res" "U res = Inr items"
    using attempt_not_fails [OF n] by blast
  then show "loadCRDs_loop D U \<lparr>task_cluster = c, task_offset = off, task_attempts = 0, task_slept = sl\<rparr> \<noteq> None"
    using loadCRDs_loop_success [of n D U "\<lparr>task_cluster = c, task_offset = off, task_attempts = 0, task_slept = sl\<rparr>" res items]
      least by simp
qed

lemma version_columns_map:
  "version_columns version =
     map (\<lambda>column. \<lparr>col_Description = pc_Description column, col_JSONPath = pc_JSONPath column,
                      col_Name = pc_Name column, col_Type = pc_Type column\<rparr>)
       (ver_AdditionalPrinterColumns version)"
  unfolding version_columns_def using foldl_names [of _ "[]"] by simp

lemma foldl_append_entries: "foldl (\<lambda>acc v. acc @ [f v]) acc vs = acc @ map f vs"
  by (induction vs arbitrary: acc) simp_all

lemma append_versions_map: "append_versions acc crd = acc @ map (crd_entry crd) (Spec_Versions crd)"
  unfolding append_versions_def
  by (simp add: foldl_append_entries crd_entry_def version_description_def version_columns_map)

lemma foldl_append_versions:
  "foldl append_versions acc items = acc @ concat (map (\<lambda>crd. map (crd_entry crd) (Spec_Versions crd)) items)"
  by (induction items arbitrary: acc) (simp_all add: append_versions_map)

lemma crds_append_crds:
  "crds (append_crds c items) =
     crds c @ concat (map (\<lambda>crd. map (crd_entry crd) (Spec_Versions crd)) items)"
  by (simp add: append_crds_def foldl_append_versions)

lemma length_flattened:
  "length (concat (map (\<lambda>crd. map (crd_entry crd) (Spec_Versions crd)) items)) =
     sum_list (map (\<lambda>crd. length (Spec_Versions crd)) items)"
  by (induction items) simp_all



lemma sint_delay:
  assumes "i \<le> 28"
  shows "sint (30 * 2 ^ i * Second :: 64 word) = 30 * 2 ^ i * 1000000000"
proof -
  have "(2::int) ^ i \<le> 2 ^ 28"
    using assms by (intro power_increasing) simp_all
  then have hi: "30 * 2 ^ i * 1000000000 < (2::int) ^ 63"
    by simp
  have "(0::int) \<le> 30 * 2 ^ i * 1000000000"
    by simp
  then have lo: "- ((2::int) ^ 63) \<le> 30 * 2 ^ i * 1000000000"
    by (rule order_trans [rotated]) simp
  have "(30 * 2 ^ i * Second :: 64 word) = word_of_int (30 * 2 ^ i * 1000000000)"
    by (simp add: Second_def)
  then have "sint (30 * 2 ^ i * Second :: 64 word) = signed_take_bit 63 (30 * 2 ^ i * 1000000000 :: int)"
    by (simp only: sint_sbintrunc') simp
  also have "\<dots> = 30 * 2 ^ i * 1000000000"
    using lo hi by (rule signed_take_bit_int_eq_self)
  finally show ?thesis .
qed

text \<open>
  C4, as the code has it: when the discovery succeeds (after any number of failed
  attempts) on a cluster without CRDs, the cluster's CRD list holds one entry for every
  version listed in every definition, served or not, in the order of the definitions and
  of their versions; its length is the sum of the numbers of versions. The entry of
  a version has the path group/version, the plural name as resource, the kind as title,
  the description of the version's schema (empty without a schema), the scope, and the
  version's printer columns, one for one and in order.
\<close>

theorem loadCRDs_flattens:
  "(\<forall>i<n. attempt_fails D U i) \<and> D n = Inr res \<and> U res = Inr items \<and> crds c = [] \<longrightarrow>
   (\<exists>t. loadCRDs D U c = Some t \<and>
        GetCRDs (task_cluster t) =
          concat (map (\<lambda>crd. map (crd_entry crd) (Spec_Versions crd)) items) \<and>
        length (GetCRDs (task_cluster t)) =
          sum_list (map (\<lambda>crd. length (Spec_Versions crd)) items))"
proof
  assume a: "(\<forall>i<n. attempt_fails D U i) \<and> D n = Inr res \<and> U res = Inr items \<and> crds c = []"
  let ?t0 = "\<lparr>task_cluster = c, task_offset = 30, task_attempts = 0, task_slept = []\<rparr>"
  have "loadCRDs D U c =
     Some (?t0\<lparr>task_slept := task_slept ?t0 @ map (\<lambda>i. task_offset ?t0 * 2 ^ i * Second) [0..<n],
               task_offset := task_offset ?t0 * 2 ^ n,
               task_attempts := Suc (task_attempts ?t0 + n),
               task_cluster := append_crds (task_cluster ?t0) items\<rparr>)"
    unfolding loadCRDs_def using a by (intro loadCRDs_loop_success [where res = res]) simp_all
  moreover have "crds (append_crds c items) =
      concat (map (\<lambda>crd. map (crd_entry crd) (Spec_Versions crd)) items)"
    using a by (simp add: crds_append_crds)
  ultimately show "\<exists>t. loadCRDs D U c = Some t \<and>
        GetCRDs (task_cluster t) =
          concat (map (\<lambda>crd. map (crd_entry crd) (Spec_Versions crd)) items) \<and>
        length (GetCRDs (task_cluster t)) =
          sum_list (map (\<lambda>crd. length (Spec_Versions crd)) items)"
    by (simp add: GetCRDs_def length_flattened)
qed

theorem loadCRDs_flattens_witness:
  "map_option (\<lambda>t. GetCRDs (task_cluster t)) (loadCRDs third_time_lucky decode_two empty_cluster) =
     Some
       [\<lparr>crd_Path = ''kobs.io/v1beta1'', crd_Resource = ''teams'', crd_Title = ''Team'',
         crd_Description = ''Team is the Team CRD.'', crd_Scope = ''Namespaced'',
         crd_Columns =
           [\<lparr>col_Description = [], col_JSONPath = ''.metadata.creationTimestamp'',
             col_Name = ''Age'', col_Type = ''date''\<rparr>]\<rparr>,
        \<lparr>crd_Path = ''kobs.io/v1alpha1'', crd_Resource = ''teams'', crd_Title = ''Team'',
         crd_Description = [], crd_Scope = ''Namespaced'', crd_Columns = []\<rparr>,
        \<lparr>crd_Path = ''monitoring.coreos.com/v1'', crd_Resource = ''servicemonitors'',
         crd_Title = ''ServiceMonitor'', crd_Description = [], crd_Scope = ''Namespaced'',
         crd_Columns = []\<rparr>]"
  using loadCRDs_flattens [of "Suc (Suc 0)" third_time_lucky decode_two "''{}''" two_definitions
      empty_cluster]
  by (auto simp: attempt_fails_def third_time_lucky_def decode_two_def empty_cluster_def
      two_definitions_def crd_entry_def less_Suc_eq)

text \<open>
  The claim has one entry for each served version. The code does not read the flag: of
  three listed versions two are served, and the list has three entries, one of them for
  the version that is not served.
\<close>

theorem loadCRDs_flattens_counterexample:
  "map_option (\<lambda>t. map crd_Path (GetCRDs (task_cluster t)))
       (loadCRDs third_time_lucky decode_two empty_cluster) =
     Some [''kobs.io/v1beta1'', ''kobs.io/v1alpha1'', ''monitoring.coreos.com/v1''] \<and>
   concat (map (\<lambda>crd. map (\<lambda>version. (Spec_Group crd @ ''/'' @ ver_Name version, ver_Served version))
                         (Spec_Versions crd)) two_definitions) =
     [(''kobs.io/v1beta1'', True), (''kobs.io/v1alpha1'', False), (''monitoring.coreos.com/v1'', True)]"
proof -
  have fails: "\<And>i. i < Suc (Suc 0) \<Longrightarrow> attempt_fails third_time_lucky decode_two i"
    by (auto simp: attempt_fails_def third_time_lucky_def decode_two_def less_Suc_eq)
  have "map_option (\<lambda>t. crds (task_cluster t)) (loadCRDs third_time_lucky decode_two empty_cluster) =
        Some (crds (append_crds empty_cluster two_definitions))"
    unfolding loadCRDs_def
    using loadCRDs_loop_success [of "Suc (Suc 0)" third_time_lucky decode_two
        "\<lparr>task_cluster = empty_cluster, task_offset = 30, task_attempts = 0, task_slept = []\<rparr>"
        "''{}''" two_definitions] fails
    by (simp add: third_time_lucky_def decode_two_def)
  then have "map_option (\<lambda>t. map crd_Path (GetCRDs (task_cluster t)))
       (loadCRDs third_time_lucky decode_two empty_cluster) =
      Some (map crd_Path (crds (append_crds empty_cluster two_definitions)))"
    by (auto simp: GetCRDs_def)
  moreover have "map crd_Path (crds (append_crds empty_cluster two_definitions)) =
      [''kobs.io/v1beta1'', ''kobs.io/v1alpha1'', ''monitoring.coreos.com/v1'']"
    by (simp add: crds_append_crds empty_cluster_def two_definitions_def crd_entry_def)
  moreover have "concat (map (\<lambda>crd. map (\<lambda>version. (Spec_Group crd @ ''/'' @ ver_Name version, ver_Served version))
                         (Spec_Versions crd)) two_definitions) =
     [(''kobs.io/v1beta1'', True), (''kobs.io/v1alpha1'', False), (''monitoring.coreos.com/v1'', True)]"
    by (simp add: two_definitions_def)
  ultimately show ?thesis by simp
qed

text \<open>
  C6: \<open>loadCRDs\<close> returns no error (its result has none). While its first \<open>n\<close> attempts
  fail it is still retrying after them, the cluster untouched, having slept \<open>n\<close> times,
  for 30 seconds doubled after every failure (in 64-bit arithmetic; for the first 29
  delays this is the exact number of nanoseconds); if attempt \<open>n\<close> then succeeds it ends
  there, after \<open>n + 1\<close> attempts. It ends exactly when some attempt succeeds: when every
  attempt fails it never returns. A new cluster, and so one whose discovery has not
  succeeded, has the empty CRD list.
\<close>

theorem loadCRDs_retries:
  "((\<forall>i<n. attempt_fails D U i) \<longrightarrow>
      loadCRDs_after D U n \<lparr>task_cluster = c, task_offset = 30, task_attempts = 0, task_slept = []\<rparr> =
        Retry \<lparr>task_cluster = c, task_offset = 30 * 2 ^ n, task_attempts = n,
               task_slept = map (\<lambda>i. 30 * 2 ^ i * Second) [0..<n]\<rparr> \<and>
      (\<not> attempt_fails D U n \<longrightarrow>
         (\<exists>t. loadCRDs D U c = Some t \<and> task_attempts t = Suc n \<and>
              task_slept t = map (\<lambda>i. 30 * 2 ^ i * Second) [0..<n]))) \<and>
   (loadCRDs D U c \<noteq> None) = (\<exists>i. \<not> attempt_fails D U i) \<and>
   (\<forall>i\<le>28. sint (30 * 2 ^ i * Second) = 30 * 2 ^ i * 1000000000) \<and>
   (\<forall>ul nm c0. NewCluster ul None nm = Inr c0 \<longrightarrow> GetCRDs c0 = [])"
proof -
  let ?t0 = "\<lparr>task_cluster = c, task_offset = 30, task_attempts = 0, task_slept = []\<rparr>"
  have retrying: "loadCRDs_after D U n ?t0 =
        Retry \<lparr>task_cluster = c, task_offset = 30 * 2 ^ n, task_attempts = n,
               task_slept = map (\<lambda>i. 30 * 2 ^ i * Second) [0..<n]\<rparr>"
    if "\<forall>i<n. attempt_fails D U i"
    using loadCRDs_after_failures [of n D U ?t0] that by simp
  have ends: "\<exists>t. loadCRDs D U c = Some t \<and> task_attempts t = Suc n \<and>
              task_slept t = map (\<lambda>i. 30 * 2 ^ i * Second) [0..<n]"
    if fails: "\<forall>i<n. attempt_fails D U i" and ok: "\<not> attempt_fails D U n"
  proof -
    obtain res items where "D n = Inr res" "U res = Inr items"
      using attempt_not_fails [OF ok] by blast
    then show ?thesis
      unfolding loadCRDs_def
      using loadCRDs_loop_success [of n D U ?t0 res items] fails by simp
  qed
  have iff: "(loadCRDs D U c \<noteq> None) = (\<exists>i. \<not> attempt_fails D U i)"
    unfolding loadCRDs_def by (rule loadCRDs_loop_returns_iff)
  have new: "GetCRDs c0 = []" if "NewCluster ul None nm = Inr c0" for ul nm c0
    using that by (auto simp: NewCluster_def GetCRDs_def)
  show ?thesis
    using retrying ends iff sint_delay new by blast
qed

theorem loadCRDs_retries_witness:
  "loadCRDs_after third_time_lucky decode_two (Suc (Suc 0))
       \<lparr>task_cluster = empty_cluster, task_offset = 30, task_attempts = 0, task_slept = []\<rparr> =
     Retry \<lparr>task_cluster = empty_cluster, task_offset = 120, task_attempts = Suc (Suc 0),
            task_slept = [30000000000, 60000000000]\<rparr> \<and>
   (\<exists>t. loadCRDs third_time_lucky decode_two empty_cluster = Some t \<and>
        task_attempts t = Suc (Suc (Suc 0)) \<and> task_slept t = [30000000000, 60000000000]) \<and>
   loadCRDs (\<lambda>k. Inl (Error ''connection refused'')) decode_two empty_cluster = None"
proof -
  have fails: "\<forall>i<Suc (Suc 0). attempt_fails third_time_lucky decode_two i"
    by (simp add: attempt_fails_def third_time_lucky_def decode_two_def less_Suc_eq)
  have ok: "\<not> attempt_fails third_time_lucky decode_two (Suc (Suc 0))"
    by (simp add: attempt_fails_def third_time_lucky_def decode_two_def)
  have never: "\<forall>i. attempt_fails (\<lambda>k. Inl (Error ''connection refused'')) decode_two i"
    by (simp add: attempt_fails_def)
  note lucky = loadCRDs_retries [of "Suc (Suc 0)" third_time_lucky decode_two empty_cluster]
  note unlucky =
    loadCRDs_retries [of 0 "\<lambda>k. Inl (Error ''connection refused'')" decode_two empty_cluster]
  have retrying: "loadCRDs_after third_time_lucky decode_two (Suc (Suc 0))
       \<lparr>task_cluster = empty_cluster, task_offset = 30, task_attempts = 0, task_slept = []\<rparr> =
     Retry \<lparr>task_cluster = empty_cluster, task_offset = 30 * 2 ^ Suc (Suc 0),
            task_attempts = Suc (Suc 0),
            task_slept = map (\<lambda>i. 30 * 2 ^ i * Second) [0..<Suc (Suc 0)]\<rparr>"
    using lucky fails by blast
  have ends: "\<exists>t. loadCRDs third_time_lucky decode_two empty_cluster = Some t \<and>
        task_attempts t = Suc (Suc (Suc 0)) \<and>
        task_slept t = map (\<lambda>i. 30 * 2 ^ i * Second) [0..<Suc (Suc 0)]"
    using lucky fails ok by blast
  have stuck: "loadCRDs (\<lambda>k. Inl (Error ''connection refused'')) decode_two empty_cluster = None"
    using unlucky never by blast
  have slept: "map (\<lambda>i. 30 * 2 ^ i * Second) [0..<Suc (Suc 0)] = [30000000000, 60000000000 :: 64 word]"
    by (simp add: Second_def)
  show ?thesis
    using retrying ends stuck unfolding slept by simp
qed


end
